theory Spec2Isabelle
  imports
    Complex_Main
    "HOL-Library.Char_ord"
    "HOL-Library.List_Lexorder"
    "HOL-Library.Product_Lexorder"
begin

section \<open>Strings and characters\<close>

text \<open>
  A Python \<open>str\<close> is modelled as a \<open>string\<close>; a \<open>char\<close> stands for the code point
  of the same number (0 to 255, the Latin-1 range of Unicode). The character classes
  below are those of Python 3 on that range. \<open>Optional[str]\<close> is \<open>string option\<close>.
\<close>

definition code :: "char \<Rightarrow> nat" where
  "code c = of_char c"

definition is_decimal :: "char \<Rightarrow> bool" where
  \<comment> \<open>\<open>\d\<close> of the \<open>re\<close> module, and the digits \<open>int()\<close> accepts: \<open>0\<close> to \<open>9\<close>.\<close>
  "is_decimal c = (48 \<le> code c \<and> code c \<le> 57)"

definition isdigit_char :: "char \<Rightarrow> bool" where
  \<comment> \<open>\<open>str.isdigit\<close>: the decimal digits and the superscripts two, three and one.\<close>
  "isdigit_char c = (is_decimal c \<or> code c = 178 \<or> code c = 179 \<or> code c = 185)"

definition isspace_char :: "char \<Rightarrow> bool" where
  \<comment> \<open>\<open>\s\<close>, \<open>str.isspace\<close> and the characters \<open>str.strip()\<close> removes.\<close>
  "isspace_char c =
     ((9 \<le> code c \<and> code c \<le> 13) \<or> (28 \<le> code c \<and> code c \<le> 32)
      \<or> code c = 133 \<or> code c = 160)"

definition is_ascii_upper :: "char \<Rightarrow> bool" where
  "is_ascii_upper c = (65 \<le> code c \<and> code c \<le> 90)"

definition is_ascii_lower :: "char \<Rightarrow> bool" where
  "is_ascii_lower c = (97 \<le> code c \<and> code c \<le> 122)"

definition is_word_char :: "char \<Rightarrow> bool" where
  \<comment> \<open>\<open>\w\<close>: the alphanumeric characters and the underscore.\<close>
  "is_word_char c =
     (is_decimal c \<or> is_ascii_upper c \<or> is_ascii_lower c \<or> code c = 95
      \<or> code c = 170 \<or> code c = 178 \<or> code c = 179 \<or> code c = 181
      \<or> code c = 185 \<or> code c = 186 \<or> (188 \<le> code c \<and> code c \<le> 190)
      \<or> (192 \<le> code c \<and> code c \<le> 214) \<or> (216 \<le> code c \<and> code c \<le> 246)
      \<or> 248 \<le> code c)"

definition lower_char :: "char \<Rightarrow> char" where
  \<comment> \<open>\<open>str.lower\<close> on one character: \<open>A\<close>-\<open>Z\<close> and the accented capitals move up by 32.\<close>
  "lower_char c =
     (if is_ascii_upper c \<or> (192 \<le> code c \<and> code c \<le> 222 \<and> code c \<noteq> 215)
      then char_of (code c + 32) else c)"

definition lower :: "string \<Rightarrow> string" where
  "lower s = map lower_char s"

definition isdigit :: "string \<Rightarrow> bool" where
  \<comment> \<open>\<open>str.isdigit()\<close>: at least one character, and every character a digit.\<close>
  "isdigit s = (s \<noteq> [] \<and> list_all isdigit_char s)"

definition strip :: "string \<Rightarrow> string" where
  \<comment> \<open>\<open>str.strip()\<close>: whitespace removed at both ends.\<close>
  "strip s = rev (dropWhile isspace_char (rev (dropWhile isspace_char s)))"

definition zfill :: "nat \<Rightarrow> string \<Rightarrow> string" where
  \<comment> \<open>\<open>str.zfill(width)\<close>: zeros on the left, after a leading sign, up to the width.\<close>
  "zfill width s =
     (if width \<le> length s then s
      else (case s of
              [] \<Rightarrow> replicate width CHR ''0''
            | c # cs \<Rightarrow>
                if c = CHR ''+'' \<or> c = CHR ''-''
                then c # replicate (width - length s) CHR ''0'' @ cs
                else replicate (width - length s) CHR ''0'' @ s))"

definition digit_char :: "nat \<Rightarrow> char" where
  "digit_char d = char_of (48 + d)"

function str_nat :: "nat \<Rightarrow> string" where
  \<comment> \<open>\<open>str(n)\<close>, and \<open>n\<close> in an f-string, for \<open>n \<ge> 0\<close>: decimal, no leading zero.\<close>
  "str_nat n = (if n < 10 then [digit_char n] else str_nat (n div 10) @ [digit_char (n mod 10)])"
  by pat_completeness auto
termination
  by (relation "measure id") auto

declare str_nat.simps [simp del]

definition digits_value :: "string \<Rightarrow> nat" where
  "digits_value s = foldl (\<lambda>a c. 10 * a + (code c - 48)) 0 s"

definition py_int :: "string \<Rightarrow> nat option" where
  \<comment> \<open>\<open>int(s)\<close> on a string without sign, space or underscore (the code calls it on
      strings that passed \<open>isdigit()\<close>): \<open>None\<close> is the \<open>ValueError\<close>.\<close>
  "py_int s = (if s \<noteq> [] \<and> list_all is_decimal s then Some (digits_value s) else None)"

primrec rfind_aux :: "char \<Rightarrow> string \<Rightarrow> int \<Rightarrow> int \<Rightarrow> int" where
  "rfind_aux c [] i best = best"
| "rfind_aux c (x # xs) i best = rfind_aux c xs (i + 1) (if x = c then i else best)"

definition rfind :: "char \<Rightarrow> string \<Rightarrow> int" where
  \<comment> \<open>\<open>str.rfind\<close> of one character: the last index, or \<open>-1\<close>.\<close>
  "rfind c s = rfind_aux c s 0 (- 1)"

definition splitext :: "string \<Rightarrow> string \<times> string" where
  \<comment> \<open>\<open>os.path.splitext\<close> (the POSIX one): the extension starts at the last dot of the
      last path component, unless only dots stand before it in that component.\<close>
  "splitext p =
     (let sepIndex = rfind CHR ''/'' p; dotIndex = rfind CHR ''.'' p in
      if dotIndex > sepIndex
         \<and> list_ex (\<lambda>c. c \<noteq> CHR ''.'')
              (take (nat (dotIndex - sepIndex - 1)) (drop (nat (sepIndex + 1)) p))
      then (take (nat dotIndex) p, drop (nat dotIndex) p)
      else (p, []))"

section \<open>Regular expressions of the \<open>re\<close> module\<close>

text \<open>
  The patterns of the source are kept as syntax trees and run by a backtracking matcher
  with the priorities of \<open>re\<close>: the left alternative first, a greedy repetition longest
  first, a lazy one shortest first. \<open>search\<close> tries the start positions from the left.
  Every pattern of the source has at most one capturing group.
\<close>

datatype citem =
    CDigit                 \<comment> \<open>\<open>\d\<close>\<close>
  | CSpace                 \<comment> \<open>\<open>\s\<close>\<close>
  | CWord                  \<comment> \<open>\<open>\w\<close>\<close>
  | CChar char             \<comment> \<open>a character of a set, such as \<open>_\<close> or \<open>\-\<close>\<close>
  | CLowerRange char char  \<comment> \<open>a range of lower-case letters, \<open>a-z\<close>\<close>

datatype rx =
    Lit char               \<comment> \<open>a literal character\<close>
  | CSet "citem list"      \<comment> \<open>\<open>[...]\<close>, or a class on its own\<close>
  | Bol                    \<comment> \<open>\<open>^\<close>\<close>
  | Eol                    \<comment> \<open>\<open>$\<close>\<close>
  | Eps                    \<comment> \<open>the empty pattern\<close>
  | Seq rx rx
  | Alt rx rx              \<comment> \<open>\<open>a|b\<close>\<close>
  | Star rx                \<comment> \<open>\<open>a*\<close>\<close>
  | LazyStar rx            \<comment> \<open>\<open>a*?\<close>\<close>
  | Grp rx                 \<comment> \<open>\<open>(a)\<close>, the capturing group 1\<close>

definition Many1 :: "rx \<Rightarrow> rx" where
  \<comment> \<open>\<open>a+\<close>\<close>
  "Many1 a = Seq a (Star a)"

definition Opt :: "rx \<Rightarrow> rx" where
  \<comment> \<open>\<open>a?\<close>\<close>
  "Opt a = Alt a Eps"

definition lits :: "string \<Rightarrow> rx" where
  \<comment> \<open>\<open>re.escape(s)\<close>, or a literal word of a pattern\<close>
  "lits s = foldr (\<lambda>c r. Seq (Lit c) r) s Eps"

fun in_item :: "bool \<Rightarrow> citem \<Rightarrow> char \<Rightarrow> bool" where
  \<comment> \<open>Under \<open>re.IGNORECASE\<close> the character is lower-cased before it is compared with a
      letter of the pattern; the classes do not depend on the case.\<close>
  "in_item ic CDigit x = is_decimal x"
| "in_item ic CSpace x = isspace_char x"
| "in_item ic CWord x = is_word_char x"
| "in_item ic (CChar c) x = (if ic then lower_char x = lower_char c else x = c)"
| "in_item ic (CLowerRange a b) x =
     (let y = (if ic then lower_char x else x) in code a \<le> code y \<and> code y \<le> code b)"

datatype mstate = MState (pos: nat) (rest: string) (grp: "(nat \<times> nat) option")

definition advance :: "mstate \<Rightarrow> mstate" where
  "advance s = MState (pos s + 1) (tl (rest s)) (grp s)"

function rx_match :: "bool \<Rightarrow> rx \<Rightarrow> mstate \<Rightarrow> (mstate \<Rightarrow> 'a option) \<Rightarrow> 'a option" where
  "rx_match ic (Lit c) s k =
     (case rest s of [] \<Rightarrow> None
      | x # xs \<Rightarrow> if in_item ic (CChar c) x then k (advance s) else None)"
| "rx_match ic (CSet items) s k =
     (case rest s of [] \<Rightarrow> None
      | x # xs \<Rightarrow> if list_ex (\<lambda>i. in_item ic i x) items then k (advance s) else None)"
| "rx_match ic Bol s k = (if pos s = 0 then k s else None)"
| "rx_match ic Eol s k = (if rest s = [] \<or> rest s = [CHR 0x0A] then k s else None)"
| "rx_match ic Eps s k = k s"
| "rx_match ic (Seq a b) s k = rx_match ic a s (\<lambda>s'. rx_match ic b s' k)"
| "rx_match ic (Alt a b) s k =
     (case rx_match ic a s k of Some r \<Rightarrow> Some r | None \<Rightarrow> rx_match ic b s k)"
| "rx_match ic (Star a) s k =
     (case rx_match ic a s
             (\<lambda>s'. if length (rest s') < length (rest s) then rx_match ic (Star a) s' k else None)
      of Some r \<Rightarrow> Some r | None \<Rightarrow> k s)"
| "rx_match ic (LazyStar a) s k =
     (case k s of Some r \<Rightarrow> Some r
      | None \<Rightarrow>
          rx_match ic a s
            (\<lambda>s'. if length (rest s') < length (rest s) then rx_match ic (LazyStar a) s' k
                   else None))"
| "rx_match ic (Grp a) s k =
     rx_match ic a s (\<lambda>s'. k (MState (pos s') (rest s') (Some (pos s, pos s'))))"
  by pat_completeness auto
termination
  by (relation "measures [\<lambda>(ic, r, s, k). size r, \<lambda>(ic, r, s, k). length (rest s)]") auto

declare rx_match.simps [simp del]

datatype rmatch = RMatch (group0: string) (group1: "string option")

definition slice :: "'a list \<Rightarrow> nat \<Rightarrow> nat \<Rightarrow> 'a list" where
  \<comment> \<open>\<open>s[i:j]\<close> for \<open>0 \<le> i\<close>, \<open>0 \<le> j\<close>\<close>
  "slice s i j = take (j - i) (drop i s)"

definition mk_match :: "string \<Rightarrow> nat \<Rightarrow> mstate \<Rightarrow> rmatch" where
  \<comment> \<open>the match object: \<open>group(0)\<close> is the matched text, \<open>group(1)\<close> the captured one
      (\<open>None\<close> when the group took no part in the match)\<close>
  "mk_match subject start s =
     RMatch (slice subject start (pos s))
       (case grp s of None \<Rightarrow> None | Some (i, j) \<Rightarrow> Some (slice subject i j))"

definition match_at :: "bool \<Rightarrow> rx \<Rightarrow> string \<Rightarrow> nat \<Rightarrow> rmatch option" where
  \<comment> \<open>the match that starts at position \<open>start\<close>, if there is one\<close>
  "match_at ic r subject start =
     rx_match ic r (MState start (drop start subject) None) (\<lambda>s. Some (mk_match subject start s))"

fun search_from :: "bool \<Rightarrow> rx \<Rightarrow> string \<Rightarrow> nat \<Rightarrow> nat \<Rightarrow> rmatch option" where
  \<comment> \<open>the start positions \<open>start\<close>, \<open>start + 1\<close>, ..., \<open>start + n\<close> in turn\<close>
  "search_from ic r subject start 0 = match_at ic r subject start"
| "search_from ic r subject start (Suc n) =
     (case match_at ic r subject start of
        Some mt \<Rightarrow> Some mt
      | None \<Rightarrow> search_from ic r subject (Suc start) n)"

definition re_search :: "bool \<Rightarrow> rx \<Rightarrow> string \<Rightarrow> rmatch option" where
  \<comment> \<open>\<open>pattern.search(subject)\<close>: the leftmost match; the flag is \<open>re.IGNORECASE\<close>\<close>
  "re_search ic r subject = search_from ic r subject 0 (length subject)"

definition re_match :: "bool \<Rightarrow> rx \<Rightarrow> string \<Rightarrow> rmatch option" where
  \<comment> \<open>\<open>re.match(pattern, subject)\<close>: a match at the start of the subject only\<close>
  "re_match ic r subject = match_at ic r subject 0"

section \<open>The identifiers and the filename classifier (\<open>image_uploader.py\<close>)\<close>

definition GROUPABLE_IDENTIFIERS :: "string list" where
  "GROUPABLE_IDENTIFIERS =
     [''UD'', ''LD'', ''MD'', ''UVD'', ''PDBSE'', ''PDBSE1'', ''BSE'', ''SE'', ''ABF'', ''ADF'']"

definition NON_GROUPABLE_IDENTIFIERS :: "string list" where
  "NON_GROUPABLE_IDENTIFIERS = [''Spectrum'', ''Spectra'', ''Map'', ''Maps'', ''Electron Image'']"

definition SPECTRUM_IDENTIFIERS :: "string list" where
  "SPECTRUM_IDENTIFIERS = [''Spectrum'', ''Spectra'']"

definition MAP_IDENTIFIERS :: "string list" where
  \<comment> \<open>the list literal \<open>['Map', 'Maps', 'Electron Image']\<close> of the source\<close>
  "MAP_IDENTIFIERS = [''Map'', ''Maps'', ''Electron Image'']"

definition ALL_IDENTIFIERS :: "string list" where
  "ALL_IDENTIFIERS = GROUPABLE_IDENTIFIERS @ NON_GROUPABLE_IDENTIFIERS"

definition sorted_identifiers :: "string list" where
  \<comment> \<open>\<open>sorted(ALL_IDENTIFIERS, key=len, reverse=True)\<close>: longest first; the sort is
      stable, so identifiers of one length keep the order of the list\<close>
  "sorted_identifiers = sort_key (\<lambda>s. - int (length s)) ALL_IDENTIFIERS"

definition sep_set :: rx where
  \<comment> \<open>\<open>[\s\-_]\<close>\<close>
  "sep_set = CSet [CSpace, CChar CHR ''-'', CChar CHR ''_'']"

definition digit :: rx where
  \<comment> \<open>\<open>\d\<close>\<close>
  "digit = CSet [CDigit]"

definition ident_tail :: rx where
  \<comment> \<open>\<open>(?:[\s_\-\(\d]|[a-z]+\d*|$)\<close>\<close>
  "ident_tail =
     Alt (CSet [CSpace, CChar CHR ''_'', CChar CHR ''-'', CChar CHR ''('', CDigit])
       (Alt (Seq (Many1 (CSet [CLowerRange CHR ''a'' CHR ''z''])) (Star digit)) Eol)"

definition ident_pattern :: "string \<Rightarrow> rx" where
  \<comment> \<open>\<open>(?:^|[\s_\-])(IDENT)(?:[\s_\-\(\d]|[a-z]+\d*|$)\<close>\<close>
  "ident_pattern identifier =
     Seq (Alt Bol (CSet [CSpace, CChar CHR ''_'', CChar CHR ''-'']))
       (Seq (Grp (lits identifier)) ident_tail)"

definition num_pattern :: "string \<Rightarrow> rx" where
  \<comment> \<open>\<open>(\d{4})[\s\-_]+\d*[\s\-_]*IDENT(?:[\s_\-\(\d]|[a-z]+\d*|$)\<close>\<close>
  "num_pattern identifier =
     Seq (Grp (Seq digit (Seq digit (Seq digit digit))))
       (Seq (Many1 sep_set) (Seq (Star digit) (Seq (Star sep_set)
         (Seq (lits identifier) ident_tail))))"

definition num_pattern2 :: "string \<Rightarrow> rx" where
  \<comment> \<open>\<open>(\d+)[\s\-_]+IDENT(?:[\s_\-\(\d]|[a-z]+\d*|$)\<close>\<close>
  "num_pattern2 identifier =
     Seq (Grp (Many1 digit)) (Seq (Many1 sep_set) (Seq (lits identifier) ident_tail))"

definition num_pattern_after :: "string \<Rightarrow> rx" where
  \<comment> \<open>\<open>IDENT[\s\-_]+(\d+)\<close>\<close>
  "num_pattern_after identifier =
     Seq (lits identifier) (Seq (Many1 sep_set) (Grp (Many1 digit)))"

definition underscore_suffix :: rx where
  \<comment> \<open>\<open>(?:_\d+)?\<close>\<close>
  "underscore_suffix = Opt (Seq (Lit CHR ''_'') (Many1 digit))"

definition after_id_pattern :: "string \<Rightarrow> rx" where
  \<comment> \<open>\<open>IDENT(?:\s+\w+)*?[_\s\-]+(\d+)(?:_\d+)?(?:\s|$)\<close>\<close>
  "after_id_pattern identifier =
     Seq (lits identifier)
       (Seq (LazyStar (Seq (Many1 (CSet [CSpace])) (Many1 (CSet [CWord]))))
         (Seq (Many1 (CSet [CChar CHR ''_'', CSpace, CChar CHR ''-'']))
           (Seq (Grp (Many1 digit)) (Seq underscore_suffix (Alt (CSet [CSpace]) Eol)))))"

definition fallback_pattern :: rx where
  \<comment> \<open>\<open>[_\s\-](\d+)(?:_\d+)?\s*$\<close>\<close>
  "fallback_pattern =
     Seq (CSet [CChar CHR ''_'', CSpace, CChar CHR ''-''])
       (Seq (Grp (Many1 digit)) (Seq underscore_suffix (Seq (Star (CSet [CSpace])) Eol)))"

definition trailing_num_pattern :: rx where
  \<comment> \<open>\<open>[_\s\-]?(\d+)(?:_\d+)?\s*$\<close>\<close>
  "trailing_num_pattern =
     Seq (Opt (CSet [CChar CHR ''_'', CSpace, CChar CHR ''-'']))
       (Seq (Grp (Many1 digit)) (Seq underscore_suffix (Seq (Star (CSet [CSpace])) Eol)))"

datatype py_error = AttributeError | ZeroDivisionError

type_synonym classification = "string option \<times> string option \<times> string option"

definition padded :: "rmatch \<Rightarrow> py_error + string" where
  \<comment> \<open>\<open>m.group(1).zfill(4)\<close>; on a group that took no part, \<open>group(1)\<close> is \<open>None\<close> and
      the call raises\<close>
  "padded mt = (case group1 mt of None \<Rightarrow> Inl AttributeError | Some d \<Rightarrow> Inr (zfill 4 d))"

definition classify_groupable :: "string \<Rightarrow> rmatch \<Rightarrow> string \<Rightarrow> py_error + classification" where
  \<comment> \<open>the branch of \<open>extract_identifier_and_number\<close> for a groupable identifier\<close>
  "classify_groupable identifier mt name =
     (case re_search True (num_pattern identifier) name of
        Some num_match \<Rightarrow>
          Inr (group1 num_match, Some identifier, Some (strip (group0 num_match)))
      | None \<Rightarrow>
     (case re_search True (num_pattern2 identifier) name of
        Some num_match2 \<Rightarrow>
          (case padded num_match2 of
             Inl e \<Rightarrow> Inl e
           | Inr numerical_prefix \<Rightarrow>
               Inr (Some numerical_prefix, Some identifier, Some (strip (group0 num_match2))))
      | None \<Rightarrow>
     (case re_search True (num_pattern_after identifier) name of
        Some num_match_after \<Rightarrow>
          (case padded num_match_after of
             Inl e \<Rightarrow> Inl e
           | Inr numerical_prefix \<Rightarrow>
               Inr (Some numerical_prefix, Some identifier, Some (group0 num_match_after)))
      | None \<Rightarrow> Inr (None, Some identifier, group1 mt))))"

definition no_number :: "string \<Rightarrow> rmatch \<Rightarrow> py_error + classification" where
  \<comment> \<open>\<open>return (None, identifier, found_identifier)\<close>\<close>
  "no_number identifier mt = Inr (None, Some identifier, group1 mt)"

definition with_number :: "string \<Rightarrow> rmatch \<Rightarrow> rmatch \<Rightarrow> py_error + classification" where
  \<comment> \<open>\<open>return (m.group(1).zfill(4), identifier, found_identifier)\<close>\<close>
  "with_number identifier mt num =
     (case padded num of
        Inl e \<Rightarrow> Inl e
      | Inr numerical_prefix \<Rightarrow> Inr (Some numerical_prefix, Some identifier, group1 mt))"

definition classify_non_groupable ::
  "string \<Rightarrow> rmatch \<Rightarrow> string \<Rightarrow> py_error + classification" where
  \<comment> \<open>the branch of \<open>extract_identifier_and_number\<close> for the other identifiers\<close>
  "classify_non_groupable identifier mt name =
     (if identifier \<in> set MAP_IDENTIFIERS then
        (case re_search True (after_id_pattern identifier) name of
           Some after_match \<Rightarrow> with_number identifier mt after_match
         | None \<Rightarrow>
        (case re_search False fallback_pattern name of
           Some fallback_match \<Rightarrow> with_number identifier mt fallback_match
         | None \<Rightarrow> no_number identifier mt))
      else if identifier \<in> set SPECTRUM_IDENTIFIERS then
        (case re_search False trailing_num_pattern name of
           Some trailing_match \<Rightarrow> with_number identifier mt trailing_match
         | None \<Rightarrow> no_number identifier mt)
      else no_number identifier mt)"

fun find_identifier :: "string list \<Rightarrow> string \<Rightarrow> (string \<times> rmatch) option" where
  \<comment> \<open>\<open>for identifier in sorted_identifiers\<close>, up to the first identifier whose pattern
      is found in the name\<close>
  "find_identifier [] name = None"
| "find_identifier (identifier # identifiers) name =
     (case re_search True (ident_pattern identifier) name of
        None \<Rightarrow> find_identifier identifiers name
      | Some mt \<Rightarrow> Some (identifier, mt))"

definition extract_identifier_and_number :: "string \<Rightarrow> py_error + classification" where
  \<comment> \<open>every path of the loop body under \<open>if match:\<close> returns, so the first identifier
      found decides; \<open>Inl\<close> is an exception that leaves the function\<close>
  "extract_identifier_and_number filename =
     (let name_without_ext = fst (splitext filename) in
      case find_identifier sorted_identifiers name_without_ext of
        None \<Rightarrow> Inr (None, None, None)
      | Some (identifier, mt) \<Rightarrow>
          if identifier \<in> set GROUPABLE_IDENTIFIERS
          then classify_groupable identifier mt name_without_ext
          else classify_non_groupable identifier mt name_without_ext)"

subsection \<open>Group labels\<close>

fun in_list :: "string option \<Rightarrow> string list \<Rightarrow> bool" where
  \<comment> \<open>\<open>identifier in [...]\<close> for an identifier that may be \<open>None\<close>\<close>
  "in_list None xs = False"
| "in_list (Some i) xs = (i \<in> set xs)"

definition format_group_label :: "string option \<Rightarrow> string option \<Rightarrow> string" where
  "format_group_label numerical_prefix identifier =
     (case numerical_prefix of
        None \<Rightarrow> []
      | Some p \<Rightarrow>
          if p = [] then []
          else if isdigit p \<and> length p = 4 then
            if in_list identifier [''Spectrum'', ''Spectra''] then
              (case py_int p of Some spec_num \<Rightarrow> ''SPEC'' @ str_nat spec_num | None \<Rightarrow> p)
            else if in_list identifier [''Map'', ''Maps'', ''Electron Image''] then
              (case py_int p of Some map_num \<Rightarrow> ''MAP'' @ str_nat map_num | None \<Rightarrow> p)
            else p
          else p)"

text \<open>
  The way back from a label to a stored group number is the group editor of
  \<open>gui_app.py\<close> (\<open>apply_changes\<close> in \<open>edit_group\<close>): the text typed by the user is
  stripped, a label such as \<open>MAP1\<close> or \<open>SPEC2\<close> gives its number padded to four digits,
  a number is padded, any other text of at most 50 characters is stored as it is.
\<close>

datatype group_edit =
    Rejected                       \<comment> \<open>the error box: nothing is stored\<close>
  | NewGroup "string option"       \<comment> \<open>the \<open>numerical_prefix\<close> that is stored\<close>

definition formatted_label_pattern :: rx where
  \<comment> \<open>\<open>(?:MAP|SPEC|map|spec)(\d+)$\<close>\<close>
  "formatted_label_pattern =
     Seq (Alt (lits ''MAP'') (Alt (lits ''SPEC'') (Alt (lits ''map'') (lits ''spec''))))
       (Seq (Grp (Many1 digit)) Eol)"

definition apply_changes :: "string \<Rightarrow> py_error + group_edit" where
  "apply_changes group_var =
     (let new_group_input = strip group_var in
      if new_group_input = [] then Inr (NewGroup None)
      else
        (case re_match True formatted_label_pattern new_group_input of
           Some formatted_match \<Rightarrow>
             (case padded formatted_match of
                Inl e \<Rightarrow> Inl e
              | Inr new_group \<Rightarrow> Inr (NewGroup (Some new_group)))
         | None \<Rightarrow>
             if isdigit new_group_input then Inr (NewGroup (Some (zfill 4 new_group_input)))
             else if length new_group_input > 50 then Inr Rejected
             else Inr (NewGroup (Some new_group_input))))"

subsection \<open>Catalogue entries and the sort key\<close>

record image =
  img_filename :: string
  img_width :: int
  img_height :: int
  img_identifier :: "string option"         \<comment> \<open>\<open>metadata['identifier']\<close>\<close>
  img_numerical_prefix :: "string option"   \<comment> \<open>\<open>metadata['numerical_prefix']\<close>\<close>

fun enumerate_from :: "nat \<Rightarrow> 'a list \<Rightarrow> (nat \<times> 'a) list" where
  "enumerate_from n [] = []"
| "enumerate_from n (x # xs) = (n, x) # enumerate_from (Suc n) xs"

definition dict_of :: "(nat \<Rightarrow> nat) \<Rightarrow> string list \<Rightarrow> (string \<rightharpoonup> nat)" where
  \<comment> \<open>\<open>{id_name: f(idx) for idx, id_name in enumerate(names)}\<close>: a later entry of the
      same name replaces an earlier one\<close>
  "dict_of f names = foldl (\<lambda>d (idx, id_name). d(id_name \<mapsto> f idx)) Map.empty (enumerate_from 0 names)"

definition identifier_priority :: "string \<rightharpoonup> nat" where
  "identifier_priority =
     dict_of (\<lambda>idx. idx) GROUPABLE_IDENTIFIERS ++ dict_of (\<lambda>idx. 100 + idx) NON_GROUPABLE_IDENTIFIERS"

definition category :: "image \<Rightarrow> nat" where
  "category img_info =
     (if in_list (img_identifier img_info) GROUPABLE_IDENTIFIERS then 0
      else if in_list (img_identifier img_info) [''Map'', ''Maps'', ''Electron Image''] then 1
      else if in_list (img_identifier img_info) [''Spectrum'', ''Spectra''] then 2
      else 3)"

definition priority :: "image \<Rightarrow> nat" where
  \<comment> \<open>\<open>identifier_priority.get(identifier, 999)\<close>\<close>
  "priority img_info =
     (case img_identifier img_info of
        None \<Rightarrow> 999
      | Some i \<Rightarrow> (case identifier_priority i of None \<Rightarrow> 999 | Some n \<Rightarrow> n))"

definition truthy :: "string option \<Rightarrow> bool" where
  \<comment> \<open>the truth value of an \<open>Optional[str]\<close>: neither \<open>None\<close> nor empty\<close>
  "truthy v = (case v of None \<Rightarrow> False | Some s \<Rightarrow> s \<noteq> [])"

definition sort_prefix :: "image \<Rightarrow> string" where
  \<comment> \<open>the group number of the key, or the sentinel when there is none\<close>
  "sort_prefix img_info =
     (if \<not> truthy (img_numerical_prefix img_info) then ''zzzzz''
      else (case img_numerical_prefix img_info of Some p \<Rightarrow> p | None \<Rightarrow> ''zzzzz''))"

definition get_sort_key :: "image \<Rightarrow> nat \<times> string \<times> nat \<times> string" where
  \<comment> \<open>tuples compare as in Python: by the first component that differs\<close>
  "get_sort_key img_info =
     (category img_info, sort_prefix img_info, priority img_info, lower (img_filename img_info))"

definition four_digit :: "string \<Rightarrow> bool" where
  \<comment> \<open>a group number of the automatic kind: it matches \<open>^\d{4}$\<close>\<close>
  "four_digit g = (length g = 4 \<and> list_all is_decimal g)"

definition strip_zeros :: "string \<Rightarrow> string" where
  \<comment> \<open>a digit string without its leading zeros (\<open>0\<close> when nothing else is left)\<close>
  "strip_zeros g = (let r = dropWhile (\<lambda>c. c = CHR ''0'') g in if r = [] then ''0'' else r)"

section \<open>The slide generator (\<open>ppt_generator.py\<close>)\<close>

text \<open>
  Lengths are English Metric Units, 914400 to the inch, as \<open>pptx.util.Inches\<close> gives
  them. Python's floats are modelled by the real numbers: \<open>/\<close> is the exact quotient,
  \<open>math.sqrt\<close> and \<open>math.ceil\<close> are the exact root and ceiling. A division by zero
  raises \<open>ZeroDivisionError\<close>, which is the value \<open>Inl ZeroDivisionError\<close>.
\<close>

record region =
  region_identifier :: string
  region_x1 :: real
  region_y1 :: real
  region_x2 :: real
  region_y2 :: real

record profile =
  profile_type :: "string option"    \<comment> \<open>\<open>profile.get('type')\<close>\<close>
  profile_regions :: "region list"   \<comment> \<open>\<open>profile.get('regions', [])\<close>\<close>

record generator =
  layout_profiles :: "string \<rightharpoonup> profile"
  slide_width :: int
  slide_height :: int
  margin_top :: int
  margin_bottom :: int
  margin_left :: int
  margin_right :: int
  label_height :: int
  label_spacing :: int
  available_width :: int
  available_height :: int

definition Inches :: "real \<Rightarrow> int" where
  "Inches x = \<lfloor>x * 914400\<rfloor>"

definition init_generator :: generator where
  \<comment> \<open>\<open>PowerPointGenerator.__init__\<close>\<close>
  "init_generator =
     \<lparr> layout_profiles = Map.empty,
       slide_width = Inches 10,
       slide_height = Inches 7.5,
       margin_top = Inches 0.75,
       margin_bottom = Inches 0.5,
       margin_left = Inches 0.5,
       margin_right = Inches 0.5,
       label_height = Inches 0.4,
       label_spacing = Inches 0.1,
       available_width = Inches 10 - Inches 0.5 - Inches 0.5,
       available_height = Inches 7.5 - Inches 0.75 - Inches 0.5 \<rparr>"

definition calculate_grid_layout :: "int \<Rightarrow> int \<times> int" where
  "calculate_grid_layout num_images =
     (if num_images = 0 then (0, 0)
      else if num_images = 1 then (1, 1)
      else if num_images = 2 then (1, 2)
      else if num_images \<le> 4 then (2, 2)
      else if num_images \<le> 6 then (2, 3)
      else if num_images \<le> 9 then (3, 3)
      else if num_images \<le> 12 then (3, 4)
      else if num_images \<le> 16 then (4, 4)
      else if num_images \<le> 20 then (4, 5)
      else
        (let cols = \<lceil>sqrt (real_of_int num_images)\<rceil>;
             rows = \<lceil>real_of_int num_images / real_of_int cols\<rceil>
         in (rows, cols)))"

definition wasted_cells :: "int \<times> int \<Rightarrow> int \<Rightarrow> int" where
  \<comment> \<open>the cells of a \<open>(rows, cols)\<close> grid that \<open>n\<close> images leave empty\<close>
  "wasted_cells grid n = fst grid * snd grid - n"

definition calculate_image_dimensions ::
  "generator \<Rightarrow> int \<Rightarrow> int \<Rightarrow> real \<Rightarrow> py_error + real \<times> real" where
  "calculate_image_dimensions self rows cols image_aspect_ratio =
     (if cols = 0 \<or> rows = 0 then Inl ZeroDivisionError
      else
        let cell_width = real_of_int (available_width self) / real_of_int cols;
            cell_height =
              real_of_int (available_height self - (label_height self + label_spacing self) * rows)
                / real_of_int rows
        in
        if cell_height = 0 then Inl ZeroDivisionError
        else if cell_width / cell_height > image_aspect_ratio then
          let image_height = cell_height - real_of_int (label_height self) - real_of_int (label_spacing self);
              image_width = image_height * image_aspect_ratio
          in Inr (image_width, image_height)
        else
          let image_width = cell_width * 0.95 in
          if image_aspect_ratio = 0 then Inl ZeroDivisionError
          else
            let image_height = image_width / image_aspect_ratio;
                max_img_height =
                  cell_height - real_of_int (label_height self) - real_of_int (label_spacing self)
            in
            if image_height > max_img_height
            then Inr (max_img_height * image_aspect_ratio, max_img_height)
            else Inr (image_width, image_height))"

definition aspect_or :: "real \<Rightarrow> image \<Rightarrow> real" where
  \<comment> \<open>\<open>img['width'] / img['height'] if img['height'] > 0 else d\<close>\<close>
  "aspect_or d img =
     (if img_height img > 0 then real_of_int (img_width img) / real_of_int (img_height img) else d)"

definition fit_width_first :: "real \<Rightarrow> real \<Rightarrow> real \<Rightarrow> py_error + real \<times> real" where
  \<comment> \<open>the fit of the slices: the given width first, the height clamped afterwards\<close>
  "fit_width_first image_width available_slice_height img_aspect_ratio =
     (if img_aspect_ratio = 0 then Inl ZeroDivisionError
      else
        let image_height = image_width / img_aspect_ratio in
        if image_height > available_slice_height
        then Inr (available_slice_height * img_aspect_ratio, available_slice_height)
        else Inr (image_width, image_height))"

definition standard_image_dimensions :: "generator \<Rightarrow> int \<Rightarrow> int \<Rightarrow> image \<Rightarrow> py_error + real \<times> real" where
  \<comment> \<open>\<open>add_standard_slide\<close>, one image of the grid\<close>
  "standard_image_dimensions self rows cols img =
     calculate_image_dimensions self rows cols (aspect_or 1 img)"

definition spectrum_image_dimensions :: "generator \<Rightarrow> nat \<Rightarrow> image \<Rightarrow> py_error + real \<times> real" where
  \<comment> \<open>\<open>add_spectrum_slide\<close>, one image of a batch of \<open>num_spectra\<close>\<close>
  "spectrum_image_dimensions self num_spectra img =
     (if num_spectra = 0 then Inl ZeroDivisionError
      else
        let slice_height = real_of_int (available_height self) / real num_spectra;
            img_aspect_ratio = aspect_or 4 img;
            available_slice_height =
              slice_height - real_of_int (label_height self) - real_of_int (label_spacing self)
        in fit_width_first (real_of_int (available_width self) * 0.95) available_slice_height
             img_aspect_ratio)"

definition mixed_other_dimensions :: "generator \<Rightarrow> nat \<Rightarrow> image \<Rightarrow> py_error + real \<times> real" where
  \<comment> \<open>\<open>add_mixed_slide\<close>, one image of the left third, in a batch of \<open>num_other\<close>\<close>
  "mixed_other_dimensions self num_other img =
     (if num_other = 0 then Inl ZeroDivisionError
      else
        let left_width = real_of_int (available_width self) / 3;
            other_slice_height = real_of_int (available_height self) / real num_other;
            img_aspect_ratio = aspect_or 1 img;
            available_slice_height =
              other_slice_height - real_of_int (label_height self) - real_of_int (label_spacing self)
        in fit_width_first (left_width * 0.9) available_slice_height img_aspect_ratio)"

definition mixed_spectrum_dimensions :: "generator \<Rightarrow> nat \<Rightarrow> image \<Rightarrow> py_error + real \<times> real" where
  \<comment> \<open>\<open>add_mixed_slide\<close>, one spectrum of the right two thirds, in a batch of \<open>num_spectra\<close>\<close>
  "mixed_spectrum_dimensions self num_spectra img =
     (if num_spectra = 0 then Inl ZeroDivisionError
      else
        let right_width = real_of_int (available_width self * 2) / 3;
            spec_slice_height = real_of_int (available_height self) / real num_spectra;
            img_aspect_ratio = aspect_or 4 img;
            available_slice_height =
              spec_slice_height - real_of_int (label_height self) - real_of_int (label_spacing self)
        in fit_width_first (right_width * 0.95) available_slice_height img_aspect_ratio)"

definition visual_image_dimensions ::
  "generator \<Rightarrow> region \<Rightarrow> int \<Rightarrow> int \<Rightarrow> image \<Rightarrow> py_error + real \<times> real" where
  \<comment> \<open>\<open>add_visual_custom_slide\<close>, one image of a region laid out in \<open>rows\<close> by \<open>cols\<close>\<close>
  "visual_image_dimensions self r rows cols img =
     (if cols = 0 \<or> rows = 0 then Inl ZeroDivisionError
      else
        let region_width = (region_x2 r - region_x1 r) * real_of_int (available_width self);
            region_height = (region_y2 r - region_y1 r) * real_of_int (available_height self);
            cell_width = region_width / real_of_int cols;
            cell_height = region_height / real_of_int rows;
            img_aspect_ratio = aspect_or 1 img;
            available_cell_height =
              cell_height - real_of_int (label_height self) - real_of_int (label_spacing self)
        in
        if available_cell_height = 0 then Inl ZeroDivisionError
        else if cell_width / available_cell_height > img_aspect_ratio
        then Inr (available_cell_height * img_aspect_ratio, available_cell_height)
        else fit_width_first (cell_width * 0.95) available_cell_height img_aspect_ratio)"

subsection \<open>Which images go on which slide\<close>

text \<open>
  A slide is modelled by its title and by the images each part of its layout receives,
  in the order in which they are placed.
\<close>

datatype layout =
    Grid "image list"                       \<comment> \<open>\<open>add_standard_slide\<close>\<close>
  | Horizontal "image list"                 \<comment> \<open>\<open>add_spectrum_slide\<close>: one batch\<close>
  | Mixed "image list" "image list"         \<comment> \<open>\<open>add_mixed_slide\<close>: \<open>other_batch\<close>, \<open>spec_batch\<close>\<close>
  | Visual "(region \<times> image list) list"    \<comment> \<open>the regions drawn, each with its images\<close>

datatype slide = Slide (title: string) (content: layout)

definition add_standard_slide :: "string \<Rightarrow> image list \<Rightarrow> slide list" where
  "add_standard_slide group_label images =
     (if images = [] then [] else [Slide (''Group '' @ group_label) (Grid images)])"

definition part_suffix :: "nat \<Rightarrow> nat \<Rightarrow> string" where
  \<comment> \<open>\<open>f" (Part {i}/{n})"\<close>\<close>
  "part_suffix i n = '' (Part '' @ str_nat i @ ''/'' @ str_nat n @ '')''"

definition add_spectrum_slide :: "string \<Rightarrow> image list \<Rightarrow> slide list" where
  \<comment> \<open>\<open>range(0, len(images), 3)\<close> are the multiples of 3 below the length\<close>
  "add_spectrum_slide group_label images =
     map (\<lambda>batch_start.
            Slide (''Group '' @ group_label
                     @ (if length images > 3
                        then part_suffix (batch_start div 3 + 1) ((length images + 2) div 3)
                        else []))
              (Horizontal (slice images batch_start (batch_start + 3))))
       (filter (\<lambda>i. i mod 3 = 0) [0..<length images])"

definition add_mixed_slide :: "string \<Rightarrow> image list \<Rightarrow> image list \<Rightarrow> slide list" where
  "add_mixed_slide group_label spectrum_images other_images =
     (let spectrum_batch_size = 3;
          other_batch_size = 2;
          max_slides =
            max ((length spectrum_images + spectrum_batch_size - 1) div spectrum_batch_size)
                ((length other_images + other_batch_size - 1) div other_batch_size)
      in map (\<lambda>slide_num.
                let spec_start = slide_num * spectrum_batch_size;
                    spec_batch = slice spectrum_images spec_start (spec_start + spectrum_batch_size);
                    other_start = slide_num * other_batch_size;
                    other_batch = slice other_images other_start (other_start + other_batch_size)
                in Slide (''Group '' @ group_label
                            @ (if max_slides > 1 then part_suffix (slide_num + 1) max_slides else []))
                     (Mixed other_batch spec_batch))
           [0..<max_slides])"

definition add_by_identifier :: "(string option \<rightharpoonup> image list) \<Rightarrow> image \<Rightarrow> (string option \<rightharpoonup> image list)" where
  \<comment> \<open>one round of the loop: the image is appended to the list of its identifier\<close>
  "add_by_identifier d img =
     d(img_identifier img \<mapsto> (case d (img_identifier img) of None \<Rightarrow> [] | Some l \<Rightarrow> l) @ [img])"

definition images_by_identifier :: "image list \<Rightarrow> (string option \<rightharpoonup> image list)" where
  \<comment> \<open>the dictionary from an identifier to the images that carry it, in their order\<close>
  "images_by_identifier images = foldl add_by_identifier Map.empty images"

definition region_images :: "image list \<Rightarrow> region \<Rightarrow> image list" where
  \<comment> \<open>\<open>images_by_identifier.get(region['identifier'], [])\<close>\<close>
  "region_images images r =
     (case images_by_identifier images (Some (region_identifier r)) of
        None \<Rightarrow> [] | Some l \<Rightarrow> l)"

definition add_visual_custom_slide :: "string \<Rightarrow> image list \<Rightarrow> profile \<Rightarrow> slide list" where
  \<comment> \<open>a region without images is passed over (\<open>continue\<close>)\<close>
  "add_visual_custom_slide group_label images prof =
     (if profile_regions prof = [] then add_standard_slide group_label images
      else
        [Slide (''Group '' @ group_label)
           (Visual (filter (\<lambda>(r, imgs). imgs \<noteq> [])
                      (map (\<lambda>r. (r, region_images images r)) (profile_regions prof))))])"

definition is_spectrum :: "image \<Rightarrow> bool" where
  \<comment> \<open>\<open>identifier == 'Spectrum' or identifier in SPECTRUM_IDENTIFIERS\<close>\<close>
  "is_spectrum img =
     (img_identifier img = Some ''Spectrum'' \<or> in_list (img_identifier img) SPECTRUM_IDENTIFIERS)"

definition auto_layout :: "string \<Rightarrow> image list \<Rightarrow> slide list" where
  \<comment> \<open>the default of \<open>add_group_slide\<close>: the layout is chosen from the identifiers\<close>
  "auto_layout group_label images =
     (let spectrum_images = filter is_spectrum images;
          other_images = filter (\<lambda>img. \<not> is_spectrum img) images
      in if spectrum_images \<noteq> [] \<and> other_images \<noteq> []
         then add_mixed_slide group_label spectrum_images other_images
         else if spectrum_images \<noteq> [] then add_spectrum_slide group_label spectrum_images
         else add_standard_slide group_label images)"

definition forced_mixed :: "string \<Rightarrow> image list \<Rightarrow> slide list" where
  \<comment> \<open>the \<open>mixed\<close> profile of \<open>add_group_slide\<close>\<close>
  "forced_mixed group_label images =
     (let spectrum_images = filter is_spectrum images;
          other_images = filter (\<lambda>img. \<not> is_spectrum img) images;
          (spectrum_images, other_images) =
            (if spectrum_images = [] then (take 3 images, drop 3 images)
             else (spectrum_images, other_images));
          (spectrum_images, other_images) =
            (if other_images = [] \<and> length images > 3
             then (take (length images - 2) images, drop (length images - 2) images)
             else (spectrum_images, other_images))
      in add_mixed_slide group_label spectrum_images other_images)"

definition add_group_slide :: "generator \<Rightarrow> string \<Rightarrow> image list \<Rightarrow> slide list" where
  "add_group_slide self group_label images =
     (if images = [] then []
      else
        (case layout_profiles self group_label of
           None \<Rightarrow> auto_layout group_label images
         | Some prof \<Rightarrow>
             let layout_type = (case profile_type prof of None \<Rightarrow> ''auto'' | Some t \<Rightarrow> t) in
             if layout_type = ''visual'' then add_visual_custom_slide group_label images prof
             else if layout_type = ''grid'' then add_standard_slide group_label images
             else if layout_type = ''horizontal'' then add_spectrum_slide group_label images
             else if layout_type = ''mixed'' then forced_mixed group_label images
             else auto_layout group_label images))"

subsection \<open>Grouping by label (\<open>generate_presentation\<close>)\<close>

fun append_to_group :: "string \<Rightarrow> image \<Rightarrow> (string \<times> image list) list \<Rightarrow> (string \<times> image list) list" where
  \<comment> \<open>\<open>groups_dict[group_label].append(img)\<close>, a new key going to the end\<close>
  "append_to_group group_label img [] = [(group_label, [img])]"
| "append_to_group group_label img ((l, imgs) # groups) =
     (if l = group_label then (l, imgs @ [img]) # groups
      else (l, imgs) # append_to_group group_label img groups)"

definition group_label_of :: "image \<Rightarrow> string" where
  "group_label_of img = format_group_label (img_numerical_prefix img) (img_identifier img)"

definition included :: "string list option \<Rightarrow> string \<Rightarrow> bool" where
  \<comment> \<open>the negation of \<open>groups_to_include and group_label not in groups_to_include\<close>\<close>
  "included groups_to_include group_label =
     (case groups_to_include of
        None \<Rightarrow> True
      | Some gs \<Rightarrow> gs = [] \<or> group_label \<in> set gs)"

definition groups_dict :: "image list \<Rightarrow> string list option \<Rightarrow> (string \<times> image list) list" where
  "groups_dict images groups_to_include =
     foldl (\<lambda>groups img.
              if \<not> truthy (img_numerical_prefix img) then groups
              else if \<not> included groups_to_include (group_label_of img) then groups
              else append_to_group (group_label_of img) img groups)
       [] images"

definition generate_presentation :: "generator \<Rightarrow> image list \<Rightarrow> string list option \<Rightarrow> slide list" where
  \<comment> \<open>the slides of the presentation, group after group in the order of the labels\<close>
  "generate_presentation self images groups_to_include =
     (let groups = groups_dict images groups_to_include;
          sorted_groups = sort (map fst groups)
      in concat (map (\<lambda>group_label.
                        case map_of groups group_label of
                          None \<Rightarrow> []
                        | Some group_images \<Rightarrow> add_group_slide self group_label group_images)
                   sorted_groups))"

definition joins :: "string list option \<Rightarrow> string \<Rightarrow> image \<Rightarrow> bool" where
  \<comment> \<open>the image is put into the group of label \<open>l\<close>\<close>
  "joins groups_to_include l img =
     (truthy (img_numerical_prefix img) \<and> included groups_to_include l \<and> group_label_of img = l)"

definition ex_img :: "string \<Rightarrow> string option \<Rightarrow> string option \<Rightarrow> image" where
  \<comment> \<open>a catalogue entry of 1024 by 768 pixels, for the examples\<close>
  "ex_img f i p = \<lparr> img_filename = f, img_width = 1024, img_height = 768,
                    img_identifier = i, img_numerical_prefix = p \<rparr>"

fun other_batch_of :: "slide \<Rightarrow> image list" where
  \<comment> \<open>the images on the left third of a mixed slide\<close>
  "other_batch_of (Slide t (Mixed other_batch spec_batch)) = other_batch"
| "other_batch_of (Slide t c) = []"

fun spec_batch_of :: "slide \<Rightarrow> image list" where
  \<comment> \<open>the spectra on the right two thirds of a mixed slide\<close>
  "spec_batch_of (Slide t (Mixed other_batch spec_batch)) = spec_batch"
| "spec_batch_of (Slide t c) = []"

definition max_slides :: "image list \<Rightarrow> image list \<Rightarrow> nat" where
  \<comment> \<open>the local \<open>max_slides\<close> of \<open>add_mixed_slide\<close>\<close>
  "max_slides spectrum_images other_images =
     max ((length spectrum_images + 2) div 3) ((length other_images + 1) div 2)"

definition ex_profile_generator :: "string \<Rightarrow> profile \<Rightarrow> generator" where
  \<comment> \<open>the generator of \<open>__init__\<close> with one layout profile, for the examples\<close>
  "ex_profile_generator group_label prof =
     init_generator \<lparr> layout_profiles := [group_label \<mapsto> prof] \<rparr>"

definition ex_region :: "string \<Rightarrow> region" where
  \<comment> \<open>a region over the whole canvas, for the examples\<close>
  "ex_region i = \<lparr> region_identifier = i, region_x1 = 0, region_y1 = 0, region_x2 = 1, region_y2 = 1 \<rparr>"

definition ex_sized :: "int \<Rightarrow> int \<Rightarrow> image" where
  \<comment> \<open>a spectrum of the given width and height in pixels, for the examples\<close>
  "ex_sized w h = \<lparr> img_filename = ''Spectrum 1.tif'', img_width = w, img_height = h,
                    img_identifier = Some ''Spectrum'', img_numerical_prefix = Some ''0001'' \<rparr>"

section \<open>What a match is\<close>

text \<open>
  The matcher returns the first match in the order of its priorities. The relation
  below says what any match of a pattern is, from a state to a state; it has no
  priorities, and it is what the properties of the captured text are read from.
\<close>

inductive matches :: "bool \<Rightarrow> rx \<Rightarrow> mstate \<Rightarrow> mstate \<Rightarrow> bool" for ic :: bool where
  m_Lit: "rest s = x # xs \<Longrightarrow> in_item ic (CChar c) x \<Longrightarrow> matches ic (Lit c) s (advance s)"
| m_CSet: "rest s = x # xs \<Longrightarrow> list_ex (\<lambda>i. in_item ic i x) items
           \<Longrightarrow> matches ic (CSet items) s (advance s)"
| m_Bol: "pos s = 0 \<Longrightarrow> matches ic Bol s s"
| m_Eol: "rest s = [] \<or> rest s = [CHR 0x0A] \<Longrightarrow> matches ic Eol s s"
| m_Eps: "matches ic Eps s s"
| m_Seq: "matches ic a s s1 \<Longrightarrow> matches ic b s1 s2 \<Longrightarrow> matches ic (Seq a b) s s2"
| m_Alt1: "matches ic a s s1 \<Longrightarrow> matches ic (Alt a b) s s1"
| m_Alt2: "matches ic b s s1 \<Longrightarrow> matches ic (Alt a b) s s1"
| m_Star0: "matches ic (Star a) s s"
| m_Star: "matches ic a s s1 \<Longrightarrow> length (rest s1) < length (rest s)
           \<Longrightarrow> matches ic (Star a) s1 s2 \<Longrightarrow> matches ic (Star a) s s2"
| m_Lazy0: "matches ic (LazyStar a) s s"
| m_Lazy: "matches ic a s s1 \<Longrightarrow> length (rest s1) < length (rest s)
           \<Longrightarrow> matches ic (LazyStar a) s1 s2 \<Longrightarrow> matches ic (LazyStar a) s s2"
| m_Grp: "matches ic a s s1
          \<Longrightarrow> matches ic (Grp a) s (MState (pos s1) (rest s1) (Some (pos s, pos s1)))"

definition at_subject :: "string \<Rightarrow> mstate \<Rightarrow> bool" where
  \<comment> \<open>the state is a position of the subject, with the text that follows it\<close>
  "at_subject subject s = (pos s \<le> length subject \<and> rest s = drop (pos s) subject)"

definition reads :: "mstate \<Rightarrow> string \<Rightarrow> mstate \<Rightarrow> bool" where
  \<comment> \<open>from the first state to the second the text \<open>w\<close> has been read\<close>
  "reads s w s' = (rest s = w @ rest s' \<and> pos s' = pos s + length w)"

definition in_set :: "bool \<Rightarrow> citem list \<Rightarrow> char \<Rightarrow> bool" where
  \<comment> \<open>the character is in the set \<open>[...]\<close>\<close>
  "in_set ic items x = list_ex (\<lambda>i. in_item ic i x) items"

fun no_grp :: "rx \<Rightarrow> bool" where
  \<comment> \<open>the pattern has no capturing group\<close>
  "no_grp (Grp a) = False"
| "no_grp (Seq a b) = (no_grp a \<and> no_grp b)"
| "no_grp (Alt a b) = (no_grp a \<and> no_grp b)"
| "no_grp (Star a) = no_grp a"
| "no_grp (LazyStar a) = no_grp a"
| "no_grp r = True"

inductive_cases m_LitE: "matches ic (Lit c) s s'"
inductive_cases m_CSetE: "matches ic (CSet items) s s'"
inductive_cases m_BolE: "matches ic Bol s s'"
inductive_cases m_EolE: "matches ic Eol s s'"
inductive_cases m_EpsE: "matches ic Eps s s'"
inductive_cases m_SeqE: "matches ic (Seq a b) s s'"
inductive_cases m_AltE: "matches ic (Alt a b) s s'"
inductive_cases m_GrpE: "matches ic (Grp a) s s'"

section \<open>Where the identifier and the number stand in a name\<close>

text \<open>
  The specification of the classifier speaks of a number before the identifier, after
  it, or at the end of the name. The definitions of this section say this of a name cut
  into pieces, \<open>name = pre @ ... @ post\<close>, with no pattern and no matcher; the theorems on
  the classifier compare them with what the patterns of the source find.
\<close>

definition is_sep :: "char \<Rightarrow> bool" where
  \<comment> \<open>a separator: white space, a dash or an underscore\<close>
  "is_sep x = (isspace_char x \<or> x = CHR ''-'' \<or> x = CHR ''_'')"

definition is_letter :: "char \<Rightarrow> bool" where
  \<comment> \<open>a letter \<open>a\<close> to \<open>z\<close>, small or capital\<close>
  "is_letter x = (is_ascii_lower x \<or> is_ascii_upper x)"

definition digit_string :: "string \<Rightarrow> bool" where
  \<comment> \<open>a run of digits: at least one character, each of \<open>0\<close> to \<open>9\<close>\<close>
  "digit_string d = (d \<noteq> [] \<and> list_all is_decimal d)"

definition same_text :: "string \<Rightarrow> string \<Rightarrow> bool" where
  \<comment> \<open>the same text up to the case of the letters\<close>
  "same_text v w = (lower v = lower w)"

definition ident_end :: "string \<Rightarrow> bool" where
  \<comment> \<open>what may follow an identifier: the end of the name, a separator, an opening
      parenthesis, a digit, or a letter (the start of an alphabetic suffix)\<close>
  "ident_end post =
     (case post of [] \<Rightarrow> True
      | x # xs \<Rightarrow> is_sep x \<or> x = CHR ''('' \<or> is_decimal x \<or> is_letter x)"

definition occurs :: "string \<Rightarrow> string \<Rightarrow> string \<Rightarrow> bool" where
  \<comment> \<open>the identifier occurs in the name, written \<open>v\<close>: at the start of the name or after
      a separator, and followed as \<open>ident_end\<close> says\<close>
  "occurs identifier name v =
     (\<exists>pre post. name = pre @ v @ post \<and> (pre = [] \<or> is_sep (last pre))
        \<and> same_text v identifier \<and> ident_end post)"

definition first_identifier :: "string list \<Rightarrow> string \<Rightarrow> string \<Rightarrow> bool" where
  \<comment> \<open>the identifier is the first one of the list that occurs in the name\<close>
  "first_identifier identifiers name identifier =
     (\<exists>before after. identifiers = before @ identifier # after
        \<and> list_all (\<lambda>other. \<forall>v. \<not> occurs other name v) before
        \<and> (\<exists>v. occurs identifier name v))"

definition four_before :: "string \<Rightarrow> string \<Rightarrow> string \<Rightarrow> string \<Rightarrow> bool" where
  \<comment> \<open>after \<open>pre\<close> the name reads: four digits \<open>g\<close>, separators (at least one), possibly
      further digits, possibly further separators, the identifier\<close>
  "four_before identifier name pre g =
     (\<exists>s1 ds s2 v post. name = pre @ g @ s1 @ ds @ s2 @ v @ post
        \<and> four_digit g \<and> s1 \<noteq> [] \<and> list_all is_sep s1 \<and> list_all is_decimal ds
        \<and> list_all is_sep s2 \<and> same_text v identifier \<and> ident_end post)"

definition digits_before :: "string \<Rightarrow> string \<Rightarrow> string \<Rightarrow> string \<Rightarrow> bool" where
  \<comment> \<open>after \<open>pre\<close> the name reads: a run of digits \<open>d\<close>, separators (at least one), the
      identifier\<close>
  "digits_before identifier name pre d =
     (\<exists>s1 v post. name = pre @ d @ s1 @ v @ post
        \<and> digit_string d \<and> s1 \<noteq> [] \<and> list_all is_sep s1
        \<and> same_text v identifier \<and> ident_end post)"

definition digits_after :: "string \<Rightarrow> string \<Rightarrow> string \<Rightarrow> string \<Rightarrow> bool" where
  \<comment> \<open>after \<open>pre\<close> the name reads: the identifier, separators (at least one), a run of
      digits \<open>d\<close>, and no further digit\<close>
  "digits_after identifier name pre d =
     (\<exists>v s1 post. name = pre @ v @ s1 @ d @ post
        \<and> same_text v identifier \<and> s1 \<noteq> [] \<and> list_all is_sep s1 \<and> digit_string d
        \<and> (post = [] \<or> \<not> is_decimal (hd post)))"






definition leftmost :: "(string \<Rightarrow> string \<Rightarrow> bool) \<Rightarrow> string \<Rightarrow> string \<Rightarrow> bool" where
  \<comment> \<open>of the places \<open>pre\<close> where the name has the shape \<open>P\<close>, the first one\<close>
  "leftmost P pre d = (P pre d \<and> (\<forall>pre' d'. P pre' d' \<longrightarrow> length pre \<le> length pre'))"

definition zero_padded :: "string \<Rightarrow> string" where
  \<comment> \<open>zeros on the left, up to four characters\<close>
  "zero_padded d = replicate (4 - length d) CHR ''0'' @ d"

section \<open>Properties\<close>

lemma char_of_48: "char_of (48::nat) = CHR ''0''"
  by code_simp

subsection \<open>Digit strings\<close>

lemma code_char_of: "n < 256 \<Longrightarrow> code (char_of n) = n"
  by (simp add: code_def)

lemma char_of_code: "char_of (code c) = c"
  by (simp add: code_def)

lemma digit_char_code: "is_decimal c \<Longrightarrow> digit_char (code c - 48) = c"
  by (simp add: digit_char_def is_decimal_def char_of_code)

lemma is_decimal_digit_char: "d < 10 \<Longrightarrow> is_decimal (digit_char d)"
  by (simp add: digit_char_def is_decimal_def code_char_of)

lemma decimal_value_less: "is_decimal c \<Longrightarrow> code c - 48 < 10"
  by (auto simp: is_decimal_def)

lemma decimal_not_space: "is_decimal c \<Longrightarrow> \<not> isspace_char c"
  by (auto simp: is_decimal_def isspace_char_def)

lemma decimal_isdigit: "list_all is_decimal g \<Longrightarrow> list_all isdigit_char g"
  by (induction g) (auto simp: isdigit_char_def)

lemma zero_char_iff: "is_decimal c \<Longrightarrow> (c = CHR ''0'') = (code c - 48 = 0)"
proof
  assume "c = CHR ''0''" then show "code c - 48 = 0" by (simp add: code_def)
next
  assume d: "is_decimal c" and "code c - 48 = 0"
  then have "(of_char c :: nat) = of_char CHR ''0''" by (simp add: is_decimal_def code_def)
  then show "c = CHR ''0''" by (simp only: of_char_eq_iff)
qed

lemma digits_value_snoc: "digits_value (ds @ [d]) = 10 * digits_value ds + (code d - 48)"
  by (simp add: digits_value_def)

lemma digits_value_pos:
  "list_all is_decimal ds \<Longrightarrow> ds \<noteq> [] \<Longrightarrow> hd ds \<noteq> CHR ''0'' \<Longrightarrow> 0 < digits_value ds"
proof (induction ds rule: rev_induct)
  case Nil then show ?case by simp
next
  case (snoc d ds)
  show ?case
  proof (cases "ds = []")
    case True
    with snoc.prems have "is_decimal d" "d \<noteq> CHR ''0''" by simp_all
    then have "code d - 48 \<noteq> 0" using zero_char_iff by blast
    with True show ?thesis by (simp add: digits_value_def)
  next
    case False
    with snoc have "0 < digits_value ds" by simp
    then show ?thesis by (simp add: digits_value_snoc)
  qed
qed

lemma str_nat_digits:
  "list_all is_decimal ds \<Longrightarrow> ds \<noteq> [] \<Longrightarrow> hd ds \<noteq> CHR ''0'' \<Longrightarrow> str_nat (digits_value ds) = ds"
proof (induction ds rule: rev_induct)
  case Nil then show ?case by simp
next
  case (snoc d ds)
  from snoc.prems have d: "is_decimal d" by simp
  then have dv: "code d - 48 < 10" by (rule decimal_value_less)
  show ?case
  proof (cases "ds = []")
    case True
    then have "digits_value (ds @ [d]) = code d - 48" by (simp add: digits_value_def)
    with dv d True show ?thesis by (simp add: str_nat.simps digit_char_code)
  next
    case False
    with snoc.prems have p: "list_all is_decimal ds" "hd ds \<noteq> CHR ''0''" by simp_all
    then have pos: "0 < digits_value ds" using False digits_value_pos by blast
    have ih: "str_nat (digits_value ds) = ds" using snoc.IH p False by blast
    have "\<not> 10 * digits_value ds + (code d - 48) < 10" using pos by simp
    moreover have "(10 * digits_value ds + (code d - 48)) div 10 = digits_value ds" using dv by simp
    moreover have "(10 * digits_value ds + (code d - 48)) mod 10 = code d - 48" using dv by simp
    ultimately show ?thesis
      using ih d by (simp add: digits_value_snoc str_nat.simps [of "10 * digits_value ds + (code d - 48)"] digit_char_code)
  qed
qed

lemma digits_value_zeros: "digits_value (replicate k CHR ''0'' @ ds) = digits_value ds"
proof -
  have "foldl (\<lambda>a c. 10 * a + (code c - 48)) 0 (replicate k CHR ''0'') = 0"
    by (induction k) (simp_all add: code_def)
  then show ?thesis by (simp add: digits_value_def)
qed

lemma takeWhile_zero:
  "takeWhile (\<lambda>c. c = CHR ''0'') g = replicate (length (takeWhile (\<lambda>c. c = CHR ''0'') g)) CHR ''0''"
  by (induction g) auto

lemma strip_zeros_decimal:
  assumes "list_all is_decimal g"
  shows "list_all is_decimal (strip_zeros g) \<and> strip_zeros g \<noteq> []"
proof -
  have "list_all is_decimal (dropWhile (\<lambda>c. c = CHR ''0'') g)"
    using assms by (induction g) auto
  then show ?thesis
    by (auto simp: strip_zeros_def Let_def is_decimal_def code_def simp del: dropWhile_eq_Nil_conv)
qed

lemma str_nat_digits_value:
  assumes "list_all is_decimal g"
  shows "str_nat (digits_value g) = strip_zeros g"
proof -
  let ?z = "takeWhile (\<lambda>c. c = CHR ''0'') g" and ?r = "dropWhile (\<lambda>c. c = CHR ''0'') g"
  have g: "g = replicate (length ?z) CHR ''0'' @ ?r"
    using takeWhile_zero [of g] takeWhile_dropWhile_id [of "\<lambda>c. c = CHR ''0''" g] by simp
  have v: "digits_value g = digits_value ?r"
    using digits_value_zeros [of "length ?z" ?r] g by simp
  show ?thesis
  proof (cases "?r = []")
    case True
    have "digits_value ?r = 0" unfolding True by (simp add: digits_value_def)
    then have "str_nat (digits_value g) = ''0''"
      using v by (simp add: str_nat.simps digit_char_def char_of_48)
    moreover have "strip_zeros g = ''0''" unfolding strip_zeros_def Let_def True by simp
    ultimately show ?thesis by simp
  next
    case False
    have "list_all is_decimal ?r" using assms
      by (metis g list_all_append)
    moreover have "hd ?r \<noteq> CHR ''0''" using False hd_dropWhile by blast
    ultimately have "str_nat (digits_value ?r) = ?r" using False str_nat_digits by blast
    moreover have "strip_zeros g = ?r"
      using False by (simp add: strip_zeros_def Let_def del: dropWhile_eq_Nil_conv)
    ultimately show ?thesis using v by simp
  qed
qed

lemma zfill_strip_zeros:
  assumes "length g = 4" "list_all is_decimal g"
  shows "zfill 4 (strip_zeros g) = g"
proof -
  let ?z = "takeWhile (\<lambda>c. c = CHR ''0'') g" and ?r = "dropWhile (\<lambda>c. c = CHR ''0'') g"
  have g: "g = replicate (length ?z) CHR ''0'' @ ?r"
    using takeWhile_zero [of g] takeWhile_dropWhile_id [of "\<lambda>c. c = CHR ''0''" g] by simp
  have len: "length ?z + length ?r = 4" using assms(1)
    by (metis length_append takeWhile_dropWhile_id)
  show ?thesis
  proof (cases "?r = []")
    case True
    have "length ?z = 4" using len unfolding True by simp
    then have "g = replicate 4 CHR ''0''" using g unfolding True by simp
    moreover have "strip_zeros g = ''0''" unfolding strip_zeros_def Let_def True by simp
    ultimately show ?thesis by (simp add: zfill_def numeral_eq_Suc)
  next
    case False
    then obtain c cs where r: "?r = c # cs" by (cases ?r) auto
    have "list_all is_decimal ?r" using assms(2) by (metis g list_all_append)
    then have "is_decimal c" using r by simp
    then have ns: "c \<noteq> CHR ''+''" "c \<noteq> CHR ''-''" by (auto simp: is_decimal_def code_def)
    have "4 - length ?r = length ?z" using len by simp
    then have "zfill 4 ?r = replicate (length ?z) CHR ''0'' @ ?r"
      using r ns len by (auto simp: zfill_def)
    moreover have "strip_zeros g = ?r"
      using False by (simp add: strip_zeros_def Let_def del: dropWhile_eq_Nil_conv)
    ultimately show ?thesis using g by simp
  qed
qed

subsection \<open>The matcher on literals and digit runs\<close>

lemma lits_Nil: "lits [] = Eps" and lits_Cons: "lits (c # w) = Seq (Lit c) (lits w)"
  by (simp_all add: lits_def)

lemma rx_match_lits_self:
  "rx_match True (lits w) (MState p (w @ r) g) k = k (MState (p + length w) r g)"
proof (induction w arbitrary: p)
  case Nil
  then show ?case by (simp add: lits_Nil rx_match.simps)
next
  case (Cons c w)
  have "rx_match True (lits (c # w)) (MState p ((c # w) @ r) g) k
        = rx_match True (lits w) (MState (Suc p) (w @ r) g) k"
    by (simp add: lits_Cons rx_match.simps advance_def)
  then show ?case using Cons.IH [of "Suc p"] by simp
qed

lemma rx_match_lits_fail:
  "lower_char x \<noteq> lower_char c \<Longrightarrow> rx_match True (lits (c # w)) (MState p (x # xs) g) k = None"
  by (simp add: lits_Cons rx_match.simps)

lemma rx_match_star_digits:
  "list_all is_decimal ds \<Longrightarrow> k (MState (p + length ds) [] g) \<noteq> None \<Longrightarrow>
   rx_match ic (Star digit) (MState p ds g) k = k (MState (p + length ds) [] g)"
proof (induction ds arbitrary: p)
  case Nil
  then show ?case by (auto simp: digit_def rx_match.simps)
next
  case (Cons d ds)
  from Cons.prems have d: "is_decimal d" and ds: "list_all is_decimal ds" by simp_all
  have k: "k (MState (Suc p + length ds) [] g) \<noteq> None" using Cons.prems by simp
  have ih: "rx_match ic (Star digit) (MState (Suc p) ds g) k = k (MState (Suc p + length ds) [] g)"
    using Cons.IH [OF ds k] .
  have "rx_match ic (Star digit) (MState p (d # ds) g) k = rx_match ic (Star digit) (MState (Suc p) ds g) k"
    using d ih k
    by (subst rx_match.simps) (auto simp: digit_def rx_match.simps(2) advance_def split: option.splits)
  then show ?case using ih by simp
qed

lemma rx_match_many1_digits:
  assumes "list_all is_decimal ds" "ds \<noteq> []" "k (MState (p + length ds) [] g) \<noteq> None"
  shows "rx_match ic (Many1 digit) (MState p ds g) k = k (MState (p + length ds) [] g)"
proof -
  from assms obtain d ds' where ds: "ds = d # ds'" by (cases ds) auto
  with assms have d: "is_decimal d" and ds': "list_all is_decimal ds'" by simp_all
  have k: "k (MState (Suc p + length ds') [] g) \<noteq> None" using assms(3) ds by simp
  have "rx_match ic (Many1 digit) (MState p ds g) k = rx_match ic (Star digit) (MState (Suc p) ds' g) k"
    using d by (simp add: Many1_def rx_match.simps(6) ds) (simp add: digit_def rx_match.simps(2) advance_def)
  then show ?thesis using rx_match_star_digits [of ds' k "Suc p" g ic] ds' k ds by simp
qed

lemma re_match_label:
  assumes "list_all is_decimal ds" "ds \<noteq> []" "pre = ''SPEC'' \<or> pre = ''MAP''"
  shows "re_match True formatted_label_pattern (pre @ ds) = Some (RMatch (pre @ ds) (Some ds))"
proof -
  let ?k0 = "\<lambda>s. Some (mk_match (pre @ ds) 0 s)"
  let ?K = "\<lambda>s'. rx_match True (Seq (Grp (Many1 digit)) Eol) s' ?k0"
  have K: "?K (MState (length pre) ds None) = Some (RMatch (pre @ ds) (Some ds))"
    using assms(1,2)
    by (simp add: rx_match.simps(6,10) rx_match_many1_digits rx_match.simps(4) mk_match_def slice_def)
  have alt: "rx_match True (Alt (lits ''MAP'') (Alt (lits ''SPEC'') (Alt (lits ''map'') (lits ''spec''))))
          (MState 0 (pre @ ds) None) ?K = ?K (MState (length pre) ds None)"
  proof (cases "pre = ''MAP''")
    case True
    have "rx_match True (lits ''MAP'') (MState 0 (''MAP'' @ ds) None) ?K = ?K (MState (length ''MAP'') ds None)"
      using rx_match_lits_self [of "''MAP''" 0 ds None ?K] by simp
    then show ?thesis using K True by (simp add: rx_match.simps(7))
  next
    case False
    then have pre: "pre = ''SPEC''" using assms(3) by simp
    have f: "rx_match True (lits ''MAP'') (MState 0 (''SPEC'' @ ds) None) ?K = None"
      using rx_match_lits_fail [of "CHR ''S''" "CHR ''M''" "''AP''" 0 "''PEC'' @ ds" None ?K]
      by (simp add: lower_char_def is_ascii_upper_def code_def)
    have "rx_match True (lits ''SPEC'') (MState 0 (''SPEC'' @ ds) None) ?K = ?K (MState (length ''SPEC'') ds None)"
      using rx_match_lits_self [of "''SPEC''" 0 ds None ?K] by simp
    then show ?thesis using K pre f by (simp add: rx_match.simps(7))
  qed
  show ?thesis
    unfolding re_match_def match_at_def formatted_label_pattern_def
    using alt K by (simp add: rx_match.simps(6))
qed

lemma strip_label:
  assumes "list_all is_decimal ds" "ds \<noteq> []" "pre = ''SPEC'' \<or> pre = ''MAP''"
  shows "strip (pre @ ds) = pre @ ds"
proof -
  from assms(2) obtain ds' l where ds: "ds = ds' @ [l]" by (cases ds rule: rev_cases) auto
  with assms(1) have "is_decimal l" by simp
  then have l: "\<not> isspace_char l" by (rule decimal_not_space)
  have "dropWhile isspace_char (pre @ ds) = pre @ ds"
    using assms(3) by (auto simp: isspace_char_def code_def)
  moreover have "dropWhile isspace_char (rev (pre @ ds)) = rev (pre @ ds)"
    using l ds by simp
  ultimately show ?thesis by (simp add: strip_def)
qed

lemma apply_changes_label:
  assumes "four_digit g" "pre = ''SPEC'' \<or> pre = ''MAP''"
  shows "apply_changes (pre @ str_nat (digits_value g)) = Inr (NewGroup (Some g))"
proof -
  from assms(1) have g: "length g = 4" "list_all is_decimal g" by (simp_all add: four_digit_def)
  let ?ds = "strip_zeros g"
  have ds: "list_all is_decimal ?ds" "?ds \<noteq> []" using strip_zeros_decimal [OF g(2)] by simp_all
  have s: "str_nat (digits_value g) = ?ds" by (rule str_nat_digits_value [OF g(2)])
  have st: "strip (pre @ ?ds) = pre @ ?ds" by (rule strip_label [OF ds assms(2)])
  have m: "re_match True formatted_label_pattern (pre @ ?ds) = Some (RMatch (pre @ ?ds) (Some ?ds))"
    by (rule re_match_label [OF ds assms(2)])
  have ne: "pre @ ?ds \<noteq> []" using ds by simp
  show ?thesis
    unfolding s apply_changes_def Let_def st
    using m ne zfill_strip_zeros [OF g] by (simp add: padded_def)
qed

lemma py_int_four_digit: "four_digit g \<Longrightarrow> py_int g = Some (digits_value g)"
  by (auto simp: four_digit_def py_int_def)

lemma isdigit_four_digit: "four_digit g \<Longrightarrow> isdigit g \<and> length g = 4 \<and> g \<noteq> []"
  by (auto simp: four_digit_def isdigit_def decimal_isdigit)

lemma format_not_four_digit: "\<not> four_digit g \<Longrightarrow> format_group_label (Some g) identifier = g"
  by (auto simp: format_group_label_def four_digit_def py_int_def split: option.splits)

text \<open>
  Claim C3. A group number of four decimal digits is shown as \<open>SPEC\<close> followed by
  its integer value for the identifiers Spectrum and Spectra, as \<open>MAP\<close> followed by
  its integer value for Map, Maps and Electron Image, and unchanged for every other
  identifier; the integer is written without leading zeros. Any other group number is
  returned as it is. Reading a \<open>SPEC\<close> or \<open>MAP\<close> label back with the group editor
  gives the four digits it came from, so that formatting again gives the same label.
  \<open>format("0002", "Spectrum")\<close> is \<open>SPEC2\<close> and \<open>format("0002", "PDBSE")\<close> is \<open>0002\<close>.
\<close>

theorem format_group_label_rules:
  "(four_digit g \<and> in_list identifier [''Spectrum'', ''Spectra'']
      \<longrightarrow> format_group_label (Some g) identifier = ''SPEC'' @ str_nat (digits_value g)
          \<and> str_nat (digits_value g) = strip_zeros g
          \<and> apply_changes (format_group_label (Some g) identifier) = Inr (NewGroup (Some g)))
   \<and> (four_digit g \<and> in_list identifier [''Map'', ''Maps'', ''Electron Image'']
      \<longrightarrow> format_group_label (Some g) identifier = ''MAP'' @ str_nat (digits_value g)
          \<and> str_nat (digits_value g) = strip_zeros g
          \<and> apply_changes (format_group_label (Some g) identifier) = Inr (NewGroup (Some g)))
   \<and> (four_digit g \<and> \<not> in_list identifier [''Spectrum'', ''Spectra'']
        \<and> \<not> in_list identifier [''Map'', ''Maps'', ''Electron Image'']
      \<longrightarrow> format_group_label (Some g) identifier = g)
   \<and> (\<not> four_digit g \<longrightarrow> format_group_label (Some g) identifier = g)
   \<and> format_group_label (Some ''0002'') (Some ''Spectrum'') = ''SPEC2''
   \<and> format_group_label (Some ''0002'') (Some ''PDBSE'') = ''0002''"
proof -
  have spec: "format_group_label (Some g) identifier = ''SPEC'' @ str_nat (digits_value g)"
    if "four_digit g" "in_list identifier [''Spectrum'', ''Spectra'']"
    using that isdigit_four_digit [of g] py_int_four_digit [of g]
    by (simp add: format_group_label_def)
  have map: "format_group_label (Some g) identifier = ''MAP'' @ str_nat (digits_value g)"
    if "four_digit g" "in_list identifier [''Map'', ''Maps'', ''Electron Image'']"
      "\<not> in_list identifier [''Spectrum'', ''Spectra'']"
    using that isdigit_four_digit [of g] py_int_four_digit [of g]
    by (simp add: format_group_label_def)
  have disj: "\<not> in_list identifier [''Spectrum'', ''Spectra'']"
    if "in_list identifier [''Map'', ''Maps'', ''Electron Image'']"
    using that by (cases "identifier") auto
  have other: "format_group_label (Some g) identifier = g"
    if "four_digit g" "\<not> in_list identifier [''Spectrum'', ''Spectra'']"
       "\<not> in_list identifier [''Map'', ''Maps'', ''Electron Image'']"
    using that isdigit_four_digit [of g] by (simp add: format_group_label_def)
  have sz: "str_nat (digits_value g) = strip_zeros g" if "four_digit g"
    using that str_nat_digits_value by (simp add: four_digit_def)
  have e1: "format_group_label (Some ''0002'') (Some ''Spectrum'') = ''SPEC2''"
    by code_simp
  have e2: "format_group_label (Some ''0002'') (Some ''PDBSE'') = ''0002''"
    by (simp add: format_group_label_def)
  show ?thesis
    using spec map disj other sz e1 e2 format_not_four_digit [of g "identifier"]
      apply_changes_label [of g "''SPEC''"] apply_changes_label [of g "''MAP''"]
    by auto
qed

text \<open>The rules of C3 at the group number \<open>0002\<close> and at the custom label \<open>Sample-A\<close>.\<close>

theorem format_group_label_rules_witness:
  "four_digit ''0002'' \<and> in_list (Some ''Spectrum'') [''Spectrum'', ''Spectra'']
   \<and> format_group_label (Some ''0002'') (Some ''Spectrum'') = ''SPEC2''
   \<and> apply_changes ''SPEC2'' = Inr (NewGroup (Some ''0002''))
   \<and> in_list (Some ''Maps'') [''Map'', ''Maps'', ''Electron Image'']
   \<and> format_group_label (Some ''0002'') (Some ''Maps'') = ''MAP2''
   \<and> \<not> four_digit ''Sample-A''
   \<and> format_group_label (Some ''Sample-A'') (Some ''Spectrum'') = ''Sample-A''"
proof -
  have fd: "four_digit ''0002''" by (simp add: four_digit_def is_decimal_def code_def)
  have nfd: "\<not> four_digit ''Sample-A''" by (simp add: four_digit_def)
  have v: "str_nat (digits_value ''0002'') = ''2''"
    by code_simp
  show ?thesis
    using fd nfd v
      format_group_label_rules [of "''0002''" "Some ''Spectrum''"]
      format_group_label_rules [of "''0002''" "Some ''Maps''"]
      format_group_label_rules [of "''Sample-A''" "Some ''Spectrum''"]
    by simp
qed

subsection \<open>The sort key\<close>

lemma decimal_less_z: "is_decimal c \<Longrightarrow> c < CHR ''z''"
  by (simp add: is_decimal_def code_def less_char_def)

lemma four_digit_less_sentinel: "four_digit g \<Longrightarrow> g < ''zzzzz''"
proof -
  assume g: "four_digit g"
  then obtain c cs where "g = c # cs" by (cases g) (auto simp: four_digit_def)
  with g have "is_decimal c" by (simp add: four_digit_def)
  then show ?thesis using \<open>g = c # cs\<close> decimal_less_z by simp
qed

lemma four_digit_truthy: "four_digit g \<Longrightarrow> truthy (Some g)"
  by (auto simp: four_digit_def truthy_def)

text \<open>
  Claim C9. An entry of a lower category (0 for a groupable identifier, 1 for Map, Maps
  and Electron Image, 2 for Spectrum and Spectra, 3 otherwise) has the smaller sort
  key, whatever the group numbers and filenames are. An entry without a group number
  gets the sentinel \<open>zzzzz\<close>, which is greater than every group number of four
  digits, so within a category it comes after the entries that have one.
\<close>

theorem sort_key_categories:
  "(category a < category b \<longrightarrow> get_sort_key a < get_sort_key b)
   \<and> (\<not> truthy (img_numerical_prefix a) \<longrightarrow> sort_prefix a = ''zzzzz'')
   \<and> (four_digit g \<longrightarrow> g < ''zzzzz'')
   \<and> (category a = category b \<and> \<not> truthy (img_numerical_prefix a)
        \<and> img_numerical_prefix b = Some g \<and> four_digit g
       \<longrightarrow> get_sort_key b < get_sort_key a)"
proof -
  have 1: "get_sort_key a < get_sort_key b" if "category a < category b"
    using that by (simp add: get_sort_key_def)
  have 2: "sort_prefix a = ''zzzzz''" if "\<not> truthy (img_numerical_prefix a)"
    using that by (simp add: sort_prefix_def)
  have 3: "get_sort_key b < get_sort_key a"
    if "category a = category b" "\<not> truthy (img_numerical_prefix a)"
       "img_numerical_prefix b = Some g" "four_digit g"
  proof -
    have "sort_prefix b = g" using that(3,4) four_digit_truthy by (simp add: sort_prefix_def)
    then have "sort_prefix b < sort_prefix a"
      using 2 [OF that(2)] four_digit_less_sentinel [OF that(4)] by simp
    then show ?thesis using that(1) by (simp add: get_sort_key_def)
  qed
  show ?thesis using 1 2 3 four_digit_less_sentinel by blast
qed

text \<open>C9 on a UD entry of group 9999, a Map entry of group 0001 and a UD entry without group.\<close>

theorem sort_key_categories_witness:
  "category (ex_img ''9999 UD.tif'' (Some ''UD'') (Some ''9999''))
     < category (ex_img ''Map Data 1.tif'' (Some ''Map'') (Some ''0001''))
   \<and> get_sort_key (ex_img ''9999 UD.tif'' (Some ''UD'') (Some ''9999''))
     < get_sort_key (ex_img ''Map Data 1.tif'' (Some ''Map'') (Some ''0001''))
   \<and> \<not> truthy (img_numerical_prefix (ex_img ''UD.tif'' (Some ''UD'') None))
   \<and> four_digit ''9999''
   \<and> get_sort_key (ex_img ''9999 UD.tif'' (Some ''UD'') (Some ''9999''))
     < get_sort_key (ex_img ''UD.tif'' (Some ''UD'') None)"
proof -
  have c: "category (ex_img ''9999 UD.tif'' (Some ''UD'') (Some ''9999'')) = 0"
     "category (ex_img ''Map Data 1.tif'' (Some ''Map'') (Some ''0001'')) = 1"
     "category (ex_img ''UD.tif'' (Some ''UD'') None) = 0"
    by (simp_all add: category_def ex_img_def GROUPABLE_IDENTIFIERS_def)
  have t: "\<not> truthy (img_numerical_prefix (ex_img ''UD.tif'' (Some ''UD'') None))"
    by (simp add: truthy_def ex_img_def)
  have f: "four_digit ''9999''" by (simp add: four_digit_def is_decimal_def code_def)
  have p: "img_numerical_prefix (ex_img ''9999 UD.tif'' (Some ''UD'') (Some ''9999'')) = Some ''9999''"
    by (simp add: ex_img_def)
  show ?thesis
    using c t f p
      sort_key_categories [of "ex_img ''9999 UD.tif'' (Some ''UD'') (Some ''9999'')"
        "ex_img ''Map Data 1.tif'' (Some ''Map'') (Some ''0001'')" "''9999''"]
      sort_key_categories [of "ex_img ''UD.tif'' (Some ''UD'') None"
        "ex_img ''9999 UD.tif'' (Some ''UD'') (Some ''9999'')" "''9999''"]
    by simp
qed

subsection \<open>Groups of the presentation\<close>

lemma map_of_append_to_group:
  "map_of (append_to_group l img groups) l' =
     (if l' = l then Some ((case map_of groups l of None \<Rightarrow> [] | Some xs \<Rightarrow> xs) @ [img])
      else map_of groups l')"
  by (induction groups) auto

lemma map_of_groups_fold:
  "map_of (foldl (\<lambda>groups img.
              if \<not> truthy (img_numerical_prefix img) then groups
              else if \<not> included inc (group_label_of img) then groups
              else append_to_group (group_label_of img) img groups) acc images) l =
   (let xs = filter (joins inc l) images in
    case map_of acc l of
      None \<Rightarrow> if xs = [] then None else Some xs
    | Some ys \<Rightarrow> Some (ys @ xs))"
proof (induction images arbitrary: acc)
  case Nil
  then show ?case by (simp split: option.splits)
next
  case (Cons img images)
  show ?case
    by (simp add: Cons.IH map_of_append_to_group joins_def Let_def split: option.splits)
qed

lemma map_of_groups_dict:
  "map_of (groups_dict images inc) l =
     (if filter (joins inc l) images = [] then None else Some (filter (joins inc l) images))"
  unfolding groups_dict_def by (simp add: map_of_groups_fold Let_def)

text \<open>
  Claim C10. The label is not injective: the custom group label \<open>SPEC2\<close> under any
  identifier and the group number \<open>0002\<close> under Spectrum are both shown as \<open>SPEC2\<close>.
  The presentation groups the entries by label, so two such entries of the catalogue
  are in one and the same group.
\<close>

theorem format_group_label_not_injective:
  "format_group_label (Some ''SPEC2'') i = ''SPEC2''
   \<and> format_group_label (Some ''0002'') (Some ''Spectrum'') = ''SPEC2''
   \<and> (Some ''SPEC2'', i) \<noteq> (Some ''0002'', Some ''Spectrum'')
   \<and> (a \<in> set images \<and> b \<in> set images
        \<and> img_numerical_prefix a = Some ''SPEC2''
        \<and> img_numerical_prefix b = Some ''0002'' \<and> img_identifier b = Some ''Spectrum''
       \<longrightarrow> (\<exists>group_images. map_of (groups_dict images None) ''SPEC2'' = Some group_images
              \<and> a \<in> set group_images \<and> b \<in> set group_images))"
proof -
  have 1: "format_group_label (Some ''SPEC2'') j = ''SPEC2''" for j
    by (simp add: format_group_label_def)
  have 2: "format_group_label (Some ''0002'') (Some ''Spectrum'') = ''SPEC2''"
    by code_simp
  have 3: "\<exists>group_images. map_of (groups_dict images None) ''SPEC2'' = Some group_images
              \<and> a \<in> set group_images \<and> b \<in> set group_images"
    if "a \<in> set images" "b \<in> set images" "img_numerical_prefix a = Some ''SPEC2''"
       "img_numerical_prefix b = Some ''0002''" "img_identifier b = Some ''Spectrum''"
  proof -
    have ja: "joins None ''SPEC2'' a"
      using that(3) by (simp add: joins_def truthy_def included_def group_label_of_def 1)
    have jb: "joins None ''SPEC2'' b"
      using that(4,5) by (simp add: joins_def truthy_def included_def group_label_of_def 2)
    let ?g = "filter (joins None ''SPEC2'') images"
    have ab: "a \<in> set ?g" "b \<in> set ?g" using ja jb that(1,2) by simp_all
    have "?g \<noteq> []" using ja that(1) by (auto simp: filter_empty_conv)
    then have "map_of (groups_dict images None) ''SPEC2'' = Some ?g"
      by (simp only: map_of_groups_dict if_False)
    then show ?thesis using ab by blast
  qed
  show ?thesis using 1 2 3 by auto
qed

text \<open>C10 on a catalogue of two entries.\<close>

theorem format_group_label_not_injective_witness:
  "ex_img ''a.tif'' (Some ''UD'') (Some ''SPEC2'') \<in> set [ex_img ''a.tif'' (Some ''UD'') (Some ''SPEC2''), ex_img ''Spectrum 2.tif'' (Some ''Spectrum'') (Some ''0002'')]
   \<and> (\<exists>group_images.
         map_of (groups_dict [ex_img ''a.tif'' (Some ''UD'') (Some ''SPEC2''),
                              ex_img ''Spectrum 2.tif'' (Some ''Spectrum'') (Some ''0002'')] None) ''SPEC2''
           = Some group_images
         \<and> ex_img ''a.tif'' (Some ''UD'') (Some ''SPEC2'') \<in> set group_images
         \<and> ex_img ''Spectrum 2.tif'' (Some ''Spectrum'') (Some ''0002'') \<in> set group_images)"
  using format_group_label_not_injective [of "Some ''UD''" "ex_img ''a.tif'' (Some ''UD'') (Some ''SPEC2'')"
      "[ex_img ''a.tif'' (Some ''UD'') (Some ''SPEC2''), ex_img ''Spectrum 2.tif'' (Some ''Spectrum'') (Some ''0002'')]"
      "ex_img ''Spectrum 2.tif'' (Some ''Spectrum'') (Some ''0002'')"]
  by (simp add: ex_img_def)

subsection \<open>The grid\<close>

lemma sqrt_21: "\<lceil>sqrt 21\<rceil> = 5"
proof -
  have "4 < sqrt 21" by (rule real_less_rsqrt) simp
  moreover have "sqrt 21 \<le> 5" by (rule real_le_lsqrt) simp_all
  ultimately show ?thesis by (simp add: ceiling_eq_iff)
qed

lemma grid_large:
  assumes "20 < n"
  shows "calculate_grid_layout n = (\<lceil>real_of_int n / real_of_int \<lceil>sqrt (real_of_int n)\<rceil>\<rceil>, \<lceil>sqrt (real_of_int n)\<rceil>)"
  using assms by (simp add: calculate_grid_layout_def Let_def)

lemma cols_large:
  assumes "20 < n"
  shows "5 \<le> \<lceil>sqrt (real_of_int n)\<rceil>"
proof -
  have "4 < sqrt (real_of_int n)" using assms by (intro real_less_rsqrt) simp
  then have "4 < \<lceil>sqrt (real_of_int n)\<rceil>"
    using less_ceiling_iff [of 4 "sqrt (real_of_int n)"] by simp
  then show ?thesis by simp
qed

lemma ceil_div_bounds:
  fixes n c :: int
  assumes "0 < c"
  shows "n \<le> \<lceil>real_of_int n / real_of_int c\<rceil> * c"
    and "\<lceil>real_of_int n / real_of_int c\<rceil> * c - n < c"
proof -
  let ?r = "\<lceil>real_of_int n / real_of_int c\<rceil>"
  have c: "0 < real_of_int c" using assms by simp
  have "real_of_int n / real_of_int c \<le> real_of_int ?r" by (rule le_of_int_ceiling)
  then have "real_of_int n \<le> real_of_int ?r * real_of_int c"
    using c by (simp only: pos_divide_le_eq)
  then have "real_of_int n \<le> real_of_int (?r * c)" by simp
  then show "n \<le> ?r * c" by (simp only: of_int_le_iff)
  have "real_of_int ?r - 1 < real_of_int n / real_of_int c" by linarith
  then have "(real_of_int ?r - 1) * real_of_int c < real_of_int n"
    using c by (simp only: pos_less_divide_eq)
  then have "real_of_int (?r * c - n) < real_of_int c" by (simp add: algebra_simps)
  then show "?r * c - n < c" by (simp only: of_int_less_iff)
qed

lemma grid_covers:
  assumes "0 < n"
  shows "n \<le> fst (calculate_grid_layout n) * snd (calculate_grid_layout n)
         \<and> wasted_cells (calculate_grid_layout n) n < snd (calculate_grid_layout n)"
proof (cases "20 < n")
  case True
  have c: "0 < \<lceil>sqrt (real_of_int n)\<rceil>" using cols_large [OF True] by linarith
  show ?thesis
    using ceil_div_bounds [OF c, of n] by (simp add: grid_large [OF True] wasted_cells_def)
next
  case False
  with assms have "n \<in> {1..20}" by simp
  then show ?thesis
    by (auto simp: calculate_grid_layout_def wasted_cells_def)
qed

text \<open>
  Claim C5, as amended. The grid of \<open>n\<close> images is the table 0 to (0,0), 1 to (1,1),
  2 to (1,2), 3-4 to (2,2), 5-6 to (2,3), 7-9 to (3,3), 10-12 to (3,4), 13-16 to (4,4),
  17-20 to (4,5), and above 20 it has \<open>ceil(sqrt(n))\<close> columns and \<open>ceil(n/cols)\<close> rows.
  For \<open>n > 0\<close> the grid has at least \<open>n\<close> cells and leaves fewer than \<open>cols\<close> of them
  empty (no row is empty); the layout \<open>n\<close> by 1 leaves none empty, so the grid never
  wastes fewer cells than it. The grid of 7 is (3,3), the grid of 21 is (5,5).
\<close>

theorem calculate_grid_layout_table:
  "calculate_grid_layout 0 = (0, 0)
   \<and> calculate_grid_layout 1 = (1, 1)
   \<and> calculate_grid_layout 2 = (1, 2)
   \<and> (3 \<le> n \<and> n \<le> 4 \<longrightarrow> calculate_grid_layout n = (2, 2))
   \<and> (5 \<le> n \<and> n \<le> 6 \<longrightarrow> calculate_grid_layout n = (2, 3))
   \<and> (7 \<le> n \<and> n \<le> 9 \<longrightarrow> calculate_grid_layout n = (3, 3))
   \<and> (10 \<le> n \<and> n \<le> 12 \<longrightarrow> calculate_grid_layout n = (3, 4))
   \<and> (13 \<le> n \<and> n \<le> 16 \<longrightarrow> calculate_grid_layout n = (4, 4))
   \<and> (17 \<le> n \<and> n \<le> 20 \<longrightarrow> calculate_grid_layout n = (4, 5))
   \<and> (20 < n \<longrightarrow> calculate_grid_layout n
          = (\<lceil>real_of_int n / real_of_int \<lceil>sqrt (real_of_int n)\<rceil>\<rceil>, \<lceil>sqrt (real_of_int n)\<rceil>))
   \<and> (0 < n \<longrightarrow> n \<le> fst (calculate_grid_layout n) * snd (calculate_grid_layout n)
          \<and> 0 \<le> wasted_cells (calculate_grid_layout n) n
          \<and> wasted_cells (calculate_grid_layout n) n < snd (calculate_grid_layout n))
   \<and> wasted_cells (n, 1) n = 0
   \<and> calculate_grid_layout 7 = (3, 3)
   \<and> calculate_grid_layout 21 = (5, 5)"
proof -
  have t: "calculate_grid_layout 0 = (0, 0)" "calculate_grid_layout 1 = (1, 1)"
    "calculate_grid_layout 2 = (1, 2)" "calculate_grid_layout 7 = (3, 3)"
    by (simp_all add: calculate_grid_layout_def)
  have r: "3 \<le> n \<and> n \<le> 4 \<longrightarrow> calculate_grid_layout n = (2, 2)"
    "5 \<le> n \<and> n \<le> 6 \<longrightarrow> calculate_grid_layout n = (2, 3)"
    "7 \<le> n \<and> n \<le> 9 \<longrightarrow> calculate_grid_layout n = (3, 3)"
    "10 \<le> n \<and> n \<le> 12 \<longrightarrow> calculate_grid_layout n = (3, 4)"
    "13 \<le> n \<and> n \<le> 16 \<longrightarrow> calculate_grid_layout n = (4, 4)"
    "17 \<le> n \<and> n \<le> 20 \<longrightarrow> calculate_grid_layout n = (4, 5)"
    by (simp_all add: calculate_grid_layout_def)
  have c21: "\<lceil>(21::real) / 5\<rceil> = 5" by (simp add: ceiling_eq_iff)
  have e: "calculate_grid_layout 21 = (5, 5)"
    using grid_large [of 21] sqrt_21 c21 by simp
  have w: "wasted_cells (n, 1) n = 0" by (simp add: wasted_cells_def)
  have g: "0 < n \<longrightarrow> n \<le> fst (calculate_grid_layout n) * snd (calculate_grid_layout n)
          \<and> 0 \<le> wasted_cells (calculate_grid_layout n) n
          \<and> wasted_cells (calculate_grid_layout n) n < snd (calculate_grid_layout n)"
    using grid_covers [of n] by (auto simp: wasted_cells_def)
  show ?thesis using t r e w g grid_large [of n] by blast
qed

text \<open>The table of C5 at 4 images, the bounds at 21 images.\<close>

theorem calculate_grid_layout_table_witness:
  "(3::int) \<le> 4 \<and> (4::int) \<le> 4 \<and> calculate_grid_layout 4 = (2, 2)
   \<and> (20::int) < 21 \<and> (0::int) < 21
   \<and> (21::int) \<le> fst (calculate_grid_layout 21) * snd (calculate_grid_layout 21)
   \<and> wasted_cells (calculate_grid_layout 21) 21 < snd (calculate_grid_layout 21)"
proof -
  note a = calculate_grid_layout_table [of 4] and b = calculate_grid_layout_table [of 21]
  from a have 1: "calculate_grid_layout 4 = (2, 2)" by simp
  from b have 2: "(21::int) \<le> fst (calculate_grid_layout 21) * snd (calculate_grid_layout 21)"
    and 3: "wasted_cells (calculate_grid_layout 21) 21 < snd (calculate_grid_layout 21)"
    by linarith+
  show ?thesis using 1 2 3 by simp
qed

text \<open>
  Claim C5 as stated fails at 5 images: the grid (2,3) leaves one cell empty, the layout
  5 by 1 leaves none, so the wasted cells do not decrease.
\<close>

theorem wasted_cells_counterexample:
  "calculate_grid_layout 5 = (2, 3)
   \<and> wasted_cells (calculate_grid_layout 5) 5 = 1
   \<and> wasted_cells (5, 1) 5 = 0
   \<and> \<not> wasted_cells (calculate_grid_layout 5) 5 < wasted_cells (5, 1) 5"
  by (simp add: calculate_grid_layout_def wasted_cells_def)

subsection \<open>Mixed slides\<close>

lemma concat_slices:
  "concat (map (\<lambda>i. slice xs (i * k) (i * k + k)) [0..<n]) = take (n * k) xs"
proof (induction n)
  case 0
  then show ?case by simp
next
  case (Suc n)
  have "take (n * k + k) xs = take (n * k) xs @ take k (drop (n * k) xs)"
    by (rule take_add)
  then show ?case using Suc by (simp add: slice_def add.commute)
qed

lemma ceil_half: "nat \<lceil>real n / 2\<rceil> = (n + 1) div 2"
proof -
  have "\<lceil>real_of_int (int n) / real_of_int 2\<rceil> = - (- int n div 2)"
    by (rule ceiling_divide_eq_div)
  then have "\<lceil>real n / 2\<rceil> = - (- int n div 2)" by simp
  also have "\<dots> = (int n + 1) div 2" by presburger
  finally show ?thesis by (simp add: nat_div_distrib nat_add_distrib)
qed

lemma ceil_third: "nat \<lceil>real n / 3\<rceil> = (n + 2) div 3"
proof -
  have "\<lceil>real_of_int (int n) / real_of_int 3\<rceil> = - (- int n div 3)"
    by (rule ceiling_divide_eq_div)
  then have "\<lceil>real n / 3\<rceil> = - (- int n div 3)" by simp
  also have "\<dots> = (int n + 2) div 3" by presburger
  finally show ?thesis by (simp add: nat_div_distrib nat_add_distrib)
qed

lemma add_mixed_slide_eq:
  "add_mixed_slide l sp ot =
     map (\<lambda>i. Slide (''Group '' @ l @ (if max_slides sp ot > 1 then part_suffix (i + 1) (max_slides sp ot) else []))
                (Mixed (slice ot (i * 2) (i * 2 + 2)) (slice sp (i * 3) (i * 3 + 3))))
       [0..<max_slides sp ot]"
  by (simp add: add_mixed_slide_def max_slides_def Let_def)

lemma mixed_batches:
  "map other_batch_of (add_mixed_slide l sp ot) = map (\<lambda>i. slice ot (i * 2) (i * 2 + 2)) [0..<max_slides sp ot]"
  "map spec_batch_of (add_mixed_slide l sp ot) = map (\<lambda>i. slice sp (i * 3) (i * 3 + 3)) [0..<max_slides sp ot]"
  by (simp_all add: add_mixed_slide_eq o_def)

text \<open>
  Claim C4. A mixed composition of \<open>s\<close> spectra and \<open>o\<close> other images gives
  \<open>max(ceil(o/2), ceil(s/3))\<close> slides. Slide \<open>i\<close> takes the other images from position
  \<open>2i\<close> (two of them, or fewer when fewer are left) and the spectra from position \<open>3i\<close>
  (three, or fewer). The batches of the slides, one after the other, are the images
  handed in: none is placed twice, none is left out. With 5 spectra and 1 other image
  there are two slides, the second with an empty left side and the last two spectra.
\<close>

theorem add_mixed_slide_units:
  "length (add_mixed_slide l sp ot) = max (nat \<lceil>real (length ot) / 2\<rceil>) (nat \<lceil>real (length sp) / 3\<rceil>)
   \<and> (\<forall>i < length (add_mixed_slide l sp ot).
         content (add_mixed_slide l sp ot ! i)
           = Mixed (slice ot (2 * i) (2 * i + 2)) (slice sp (3 * i) (3 * i + 3))
         \<and> length (slice ot (2 * i) (2 * i + 2)) = min 2 (length ot - 2 * i)
         \<and> length (slice sp (3 * i) (3 * i + 3)) = min 3 (length sp - 3 * i))
   \<and> concat (map other_batch_of (add_mixed_slide l sp ot)) = ot
   \<and> concat (map spec_batch_of (add_mixed_slide l sp ot)) = sp
   \<and> (length sp = 5 \<and> length ot = 1
       \<longrightarrow> map content (add_mixed_slide l sp ot)
            = [Mixed ot (take 3 sp), Mixed [] (drop 3 sp)])"
proof -
  let ?n = "max_slides sp ot"
  have len: "length (add_mixed_slide l sp ot) = ?n" by (simp add: add_mixed_slide_eq)
  have n: "?n = max (nat \<lceil>real (length ot) / 2\<rceil>) (nat \<lceil>real (length sp) / 3\<rceil>)"
    by (simp add: max_slides_def ceil_half ceil_third max.commute)
  have nth: "content (add_mixed_slide l sp ot ! i)
           = Mixed (slice ot (2 * i) (2 * i + 2)) (slice sp (3 * i) (3 * i + 3))
         \<and> length (slice ot (2 * i) (2 * i + 2)) = min 2 (length ot - 2 * i)
         \<and> length (slice sp (3 * i) (3 * i + 3)) = min 3 (length sp - 3 * i)"
    if "i < length (add_mixed_slide l sp ot)" for i
    using that len by (simp add: add_mixed_slide_eq slice_def mult.commute min.commute)
  have "length ot \<le> ?n * 2" "length sp \<le> ?n * 3" by (simp_all add: max_slides_def)
  then have cc: "concat (map other_batch_of (add_mixed_slide l sp ot)) = ot"
    "concat (map spec_batch_of (add_mixed_slide l sp ot)) = sp"
    using concat_slices [of ot 2 ?n] concat_slices [of sp 3 ?n]
    by (simp_all add: mixed_batches)
  have ex: "map content (add_mixed_slide l sp ot) = [Mixed ot (take 3 sp), Mixed [] (drop 3 sp)]"
    if "length sp = 5 \<and> length ot = 1"
  proof -
    have "?n = 2" using that by (simp add: max_slides_def)
    then have "[0..<?n] = [0, 1]" by (simp add: upt_conv_Cons)
    then show ?thesis using that
      by (simp add: add_mixed_slide_eq slice_def)
  qed
  show ?thesis using len n nth cc ex by simp
qed

text \<open>C4 with five spectra and one other image of group 0001.\<close>

theorem add_mixed_slide_units_witness:
  "length [ex_img ''s1'' (Some ''Spectrum'') (Some ''0001''), ex_img ''s2'' (Some ''Spectrum'') (Some ''0001''),
           ex_img ''s3'' (Some ''Spectrum'') (Some ''0001''), ex_img ''s4'' (Some ''Spectrum'') (Some ''0001''),
           ex_img ''s5'' (Some ''Spectrum'') (Some ''0001'')] = 5
   \<and> length [ex_img ''0001 UD'' (Some ''UD'') (Some ''0001'')] = 1
   \<and> map content
        (add_mixed_slide ''0001''
           [ex_img ''s1'' (Some ''Spectrum'') (Some ''0001''), ex_img ''s2'' (Some ''Spectrum'') (Some ''0001''),
            ex_img ''s3'' (Some ''Spectrum'') (Some ''0001''), ex_img ''s4'' (Some ''Spectrum'') (Some ''0001''),
            ex_img ''s5'' (Some ''Spectrum'') (Some ''0001'')]
           [ex_img ''0001 UD'' (Some ''UD'') (Some ''0001'')])
       = [Mixed [ex_img ''0001 UD'' (Some ''UD'') (Some ''0001'')]
            [ex_img ''s1'' (Some ''Spectrum'') (Some ''0001''), ex_img ''s2'' (Some ''Spectrum'') (Some ''0001''),
             ex_img ''s3'' (Some ''Spectrum'') (Some ''0001'')],
          Mixed []
            [ex_img ''s4'' (Some ''Spectrum'') (Some ''0001''), ex_img ''s5'' (Some ''Spectrum'') (Some ''0001'')]]"
  using add_mixed_slide_units [of "''0001''"
      "[ex_img ''s1'' (Some ''Spectrum'') (Some ''0001''), ex_img ''s2'' (Some ''Spectrum'') (Some ''0001''),
        ex_img ''s3'' (Some ''Spectrum'') (Some ''0001''), ex_img ''s4'' (Some ''Spectrum'') (Some ''0001''),
        ex_img ''s5'' (Some ''Spectrum'') (Some ''0001'')]"
      "[ex_img ''0001 UD'' (Some ''UD'') (Some ''0001'')]"]
  by simp

subsection \<open>Image dimensions\<close>

lemma init_generator_values:
  "available_width init_generator = 8229600" "available_height init_generator = 5715000"
  "label_height init_generator = 365760" "label_spacing init_generator = 91440"
  "margin_top init_generator = 685800" "margin_left init_generator = 457200"
  by (simp_all add: init_generator_def Inches_def)

lemma height_constrained:
  assumes "rows \<noteq> 0" "cols \<noteq> 0"
    and "real_of_int (available_height self) / real_of_int rows
           - real_of_int (label_height self + label_spacing self) \<noteq> 0"
    and "(real_of_int (available_width self) / real_of_int cols)
           / (real_of_int (available_height self) / real_of_int rows
                - real_of_int (label_height self + label_spacing self)) > a"
  shows "calculate_image_dimensions self rows cols a =
           Inr ((real_of_int (available_height self) / real_of_int rows
                   - 2 * real_of_int (label_height self + label_spacing self)) * a,
                real_of_int (available_height self) / real_of_int rows
                   - 2 * real_of_int (label_height self + label_spacing self))"
proof -
  have ch: "real_of_int (available_height self - (label_height self + label_spacing self) * rows)
                / real_of_int rows
            = real_of_int (available_height self) / real_of_int rows
                - real_of_int (label_height self + label_spacing self)"
    using assms(1) by (simp add: field_simps)
  show ?thesis
    unfolding calculate_image_dimensions_def Let_def ch
    using assms by simp
qed

text \<open>
  Claim C6 against the code. For one square image (\<open>rows = cols = 1\<close>, aspect ratio 1)
  on the generator of \<open>__init__\<close> the cell is 8229600 wide and 5715000 high, the label
  and its gap take 457200, so the image is height-constrained and the claim gives it
  the height 5257800. The code returns 4800600: \<open>cell_height\<close> is computed with the label
  space already taken off, and the label space is taken off once more for the image.
  Read with \<open>cell_h\<close> as that reduced \<open>cell_height\<close>, the claim fails as well: at the
  aspect ratio 1.7 the test \<open>cell_w / (cell_h - label_h - label_gap) > 1.7\<close> holds, yet
  the code takes the width-constrained branch.
\<close>

theorem calculate_image_dimensions_label_twice:
  "calculate_image_dimensions init_generator 1 1 1 = Inr (4800600, 4800600)
   \<and> real_of_int (available_width init_generator) / 1
        / (real_of_int (available_height init_generator) / 1
             - real_of_int (label_height init_generator) - real_of_int (label_spacing init_generator)) > 1
   \<and> real_of_int (available_height init_generator) / 1
        - real_of_int (label_height init_generator) - real_of_int (label_spacing init_generator) = 5257800
   \<and> calculate_image_dimensions init_generator 1 1 (17 / 10) = Inr (7818120, 78181200 / 17)
   \<and> (8229600::real) / (5257800 - 365760 - 91440) > 17 / 10"
  by (simp add: calculate_image_dimensions_def Let_def init_generator_values)

text \<open>
  Claim C7 as stated fails in the spectrum layout. A spectrum without height in a batch
  of three gets the aspect ratio 4.0, not 1.0: it is placed 5791200 wide and 1447800
  high, where a square image is placed 1447800 wide. A spectrum without width (and with
  a height) makes the division \<open>img_width / img_aspect_ratio\<close> raise.
\<close>

theorem zero_height_spectrum_counterexample:
  "img_height (ex_sized 100 0) = 0
   \<and> spectrum_image_dimensions init_generator 3 (ex_sized 100 0) = Inr (5791200, 1447800)
   \<and> spectrum_image_dimensions init_generator 3 (ex_sized 1 1) = Inr (1447800, 1447800)
   \<and> img_width (ex_sized 0 100) = 0
   \<and> spectrum_image_dimensions init_generator 3 (ex_sized 0 100) = Inl ZeroDivisionError"
  by (simp add: spectrum_image_dimensions_def fit_width_first_def aspect_or_def Let_def
      init_generator_values ex_sized_def)

lemma aspect_or_zero_height: "img_height img = 0 \<Longrightarrow> aspect_or d img = d"
  by (simp add: aspect_or_def)

lemma fit_width_first_ok: "a \<noteq> 0 \<Longrightarrow> \<exists>w h. fit_width_first iw ah a = Inr (w, h)"
  by (simp add: fit_width_first_def Let_def)

lemma no_half_rows: "(5715000::int) - 457200 * rows \<noteq> 0"
proof
  assume "5715000 - 457200 * rows = 0"
  then have "2 * rows = 25" by simp
  then show False by presburger
qed

lemma init_cell_height:
  assumes "rows \<noteq> 0"
  shows "real_of_int (available_height init_generator
            - (label_height init_generator + label_spacing init_generator) * rows)
          / real_of_int rows \<noteq> 0"
proof -
  have "available_height init_generator
          - (label_height init_generator + label_spacing init_generator) * rows
        = 5715000 - 457200 * rows"
    by (simp add: init_generator_values)
  then show ?thesis using no_half_rows [of rows] assms by (simp del: of_int_diff of_int_mult)
qed

lemma standard_ok:
  assumes "rows \<noteq> 0" "cols \<noteq> 0"
  shows "\<exists>w h. calculate_image_dimensions init_generator rows cols 1 = Inr (w, h)"
proof -
  define ch where "ch = real_of_int (available_height init_generator
            - (label_height init_generator + label_spacing init_generator) * rows)
          / real_of_int rows"
  have ch: "ch \<noteq> 0" unfolding ch_def by (rule init_cell_height [OF assms(1)])
  show ?thesis
    unfolding calculate_image_dimensions_def Let_def ch_def [symmetric]
    using ch assms by (simp del: of_int_diff of_int_mult of_int_add)
qed

lemma grid_positive:
  assumes "0 < n"
  shows "0 < fst (calculate_grid_layout n) \<and> 0 < snd (calculate_grid_layout n)"
proof (cases "20 < n")
  case True
  have c: "5 \<le> \<lceil>sqrt (real_of_int n)\<rceil>" by (rule cols_large [OF True])
  have "n \<le> \<lceil>real_of_int n / real_of_int \<lceil>sqrt (real_of_int n)\<rceil>\<rceil> * \<lceil>sqrt (real_of_int n)\<rceil>"
    by (rule ceil_div_bounds(1)) (use c in linarith)
  then have "0 < \<lceil>real_of_int n / real_of_int \<lceil>sqrt (real_of_int n)\<rceil>\<rceil> * \<lceil>sqrt (real_of_int n)\<rceil>"
    using assms by linarith
  moreover have "0 < \<lceil>sqrt (real_of_int n)\<rceil>" using c by linarith
  ultimately have "0 < \<lceil>real_of_int n / real_of_int \<lceil>sqrt (real_of_int n)\<rceil>\<rceil>"
    by (simp only: zero_less_mult_pos2)
  then show ?thesis using \<open>0 < \<lceil>sqrt (real_of_int n)\<rceil>\<close> by (simp only: grid_large [OF True] fst_conv snd_conv)
next
  case False
  then show ?thesis using assms by (simp add: calculate_grid_layout_def)
qed

lemma aspect_or_unit: "aspect_or d (img \<lparr> img_width := w, img_height := 1 \<rparr>) = real_of_int w"
  by (simp add: aspect_or_def)

lemma zero_height_same:
  assumes "img_height img = 0"
  shows "standard_image_dimensions self rows cols img = calculate_image_dimensions self rows cols 1"
    and "visual_image_dimensions self r rows cols img
          = visual_image_dimensions self r rows cols (img \<lparr> img_width := 1, img_height := 1 \<rparr>)"
    and "mixed_other_dimensions self k img
          = mixed_other_dimensions self k (img \<lparr> img_width := 1, img_height := 1 \<rparr>)"
    and "spectrum_image_dimensions self k img
          = spectrum_image_dimensions self k (img \<lparr> img_width := 4, img_height := 1 \<rparr>)"
    and "mixed_spectrum_dimensions self k img
          = mixed_spectrum_dimensions self k (img \<lparr> img_width := 4, img_height := 1 \<rparr>)"
  unfolding standard_image_dimensions_def visual_image_dimensions_def mixed_other_dimensions_def
    spectrum_image_dimensions_def mixed_spectrum_dimensions_def aspect_or_unit
    aspect_or_zero_height [OF assms]
  by simp_all

lemma zero_height_slices_ok:
  assumes "img_height img = 0" "0 < k"
  shows "\<exists>w h. spectrum_image_dimensions self k img = Inr (w, h)"
    and "\<exists>w h. mixed_other_dimensions self k img = Inr (w, h)"
    and "\<exists>w h. mixed_spectrum_dimensions self k img = Inr (w, h)"
  unfolding mixed_other_dimensions_def spectrum_image_dimensions_def mixed_spectrum_dimensions_def
    aspect_or_zero_height [OF assms(1)] Let_def
  using assms(2) fit_width_first_ok [of 4] fit_width_first_ok [of 1]
  by simp_all

lemma zero_height_grid_ok:
  assumes "img_height img = 0" "0 < n"
  shows "\<exists>w h. standard_image_dimensions init_generator
                 (fst (calculate_grid_layout n)) (snd (calculate_grid_layout n)) img = Inr (w, h)"
proof -
  have "fst (calculate_grid_layout n) \<noteq> 0" "snd (calculate_grid_layout n) \<noteq> 0"
    using grid_positive [OF assms(2)] by simp_all
  then show ?thesis
    unfolding standard_image_dimensions_def aspect_or_zero_height [OF assms(1)]
    by (rule standard_ok)
qed

lemma zero_height_visual_ok:
  assumes "img_height img = 0" "rows \<noteq> 0" "cols \<noteq> 0"
    and "(region_y2 r - region_y1 r) * real_of_int (available_height self) / real_of_int rows
             - real_of_int (label_height self) - real_of_int (label_spacing self) \<noteq> 0"
  shows "\<exists>w h. visual_image_dimensions self r rows cols img = Inr (w, h)"
proof -
  define ach where "ach = (region_y2 r - region_y1 r) * real_of_int (available_height self) / real_of_int rows
             - real_of_int (label_height self) - real_of_int (label_spacing self)"
  have ach: "ach \<noteq> 0" unfolding ach_def by (rule assms(4))
  show ?thesis
    unfolding visual_image_dimensions_def aspect_or_zero_height [OF assms(1)] Let_def ach_def [symmetric]
    using ach assms(2,3) fit_width_first_ok [of 1] by simp
qed


text \<open>
  Claim C7, as amended. An image without height is laid out as an image of aspect ratio
  1.0 in the grid, in a region of a visual layout and on the left of a mixed slide, and
  as an image of aspect ratio 4.0 on a spectrum slide and on the right of a mixed slide.
  Its dimensions are computed without an exception: in a batch of at least one image for
  the slices, on the grid of any positive number of images for the generator of
  \<open>__init__\<close>, and in a region whose cells are not exactly as high as the label space.
\<close>

theorem zero_height_aspect:
  "(img_height img = 0 \<longrightarrow>
      standard_image_dimensions self rows cols img = calculate_image_dimensions self rows cols 1
      \<and> visual_image_dimensions self r rows cols img
          = visual_image_dimensions self r rows cols (img \<lparr> img_width := 1, img_height := 1 \<rparr>)
      \<and> mixed_other_dimensions self k img
          = mixed_other_dimensions self k (img \<lparr> img_width := 1, img_height := 1 \<rparr>)
      \<and> spectrum_image_dimensions self k img
          = spectrum_image_dimensions self k (img \<lparr> img_width := 4, img_height := 1 \<rparr>)
      \<and> mixed_spectrum_dimensions self k img
          = mixed_spectrum_dimensions self k (img \<lparr> img_width := 4, img_height := 1 \<rparr>))
   \<and> (img_height img = 0 \<and> 0 < k \<longrightarrow>
        (\<exists>w h. spectrum_image_dimensions self k img = Inr (w, h))
        \<and> (\<exists>w h. mixed_other_dimensions self k img = Inr (w, h))
        \<and> (\<exists>w h. mixed_spectrum_dimensions self k img = Inr (w, h)))
   \<and> (img_height img = 0 \<and> 0 < n \<longrightarrow>
        (\<exists>w h. standard_image_dimensions init_generator
                 (fst (calculate_grid_layout n)) (snd (calculate_grid_layout n)) img = Inr (w, h)))
   \<and> (img_height img = 0 \<and> rows \<noteq> 0 \<and> cols \<noteq> 0
        \<and> (region_y2 r - region_y1 r) * real_of_int (available_height self) / real_of_int rows
             - real_of_int (label_height self) - real_of_int (label_spacing self) \<noteq> 0 \<longrightarrow>
        (\<exists>w h. visual_image_dimensions self r rows cols img = Inr (w, h)))"
proof (intro conjI impI)
  assume z: "img_height img = 0"
  show "standard_image_dimensions self rows cols img = calculate_image_dimensions self rows cols 1"
    by (rule zero_height_same(1) [OF z])
  show "visual_image_dimensions self r rows cols img
          = visual_image_dimensions self r rows cols (img \<lparr> img_width := 1, img_height := 1 \<rparr>)"
    by (rule zero_height_same(2) [OF z])
  show "mixed_other_dimensions self k img
          = mixed_other_dimensions self k (img \<lparr> img_width := 1, img_height := 1 \<rparr>)"
    by (rule zero_height_same(3) [OF z])
  show "spectrum_image_dimensions self k img
          = spectrum_image_dimensions self k (img \<lparr> img_width := 4, img_height := 1 \<rparr>)"
    by (rule zero_height_same(4) [OF z])
  show "mixed_spectrum_dimensions self k img
          = mixed_spectrum_dimensions self k (img \<lparr> img_width := 4, img_height := 1 \<rparr>)"
    by (rule zero_height_same(5) [OF z])
next
  assume a: "img_height img = 0 \<and> 0 < k"
  then have z: "img_height img = 0" and k: "0 < k" by simp_all
  show "\<exists>w h. spectrum_image_dimensions self k img = Inr (w, h)"
    by (rule zero_height_slices_ok(1) [OF z k])
  show "\<exists>w h. mixed_other_dimensions self k img = Inr (w, h)"
    by (rule zero_height_slices_ok(2) [OF z k])
  show "\<exists>w h. mixed_spectrum_dimensions self k img = Inr (w, h)"
    by (rule zero_height_slices_ok(3) [OF z k])
next
  assume a: "img_height img = 0 \<and> 0 < n"
  then show "\<exists>w h. standard_image_dimensions init_generator
                 (fst (calculate_grid_layout n)) (snd (calculate_grid_layout n)) img = Inr (w, h)"
    using zero_height_grid_ok [of img n] by simp
next
  assume a: "img_height img = 0 \<and> rows \<noteq> 0 \<and> cols \<noteq> 0
        \<and> (region_y2 r - region_y1 r) * real_of_int (available_height self) / real_of_int rows
             - real_of_int (label_height self) - real_of_int (label_spacing self) \<noteq> 0"
  show "\<exists>w h. visual_image_dimensions self r rows cols img = Inr (w, h)"
    by (rule zero_height_visual_ok) (use a in blast)+
qed

text \<open>C7 on a spectrum of width 100 and height 0, in a batch of three.\<close>

theorem zero_height_aspect_witness:
  "img_height (ex_sized 100 0) = 0 \<and> (0::nat) < 3
   \<and> spectrum_image_dimensions init_generator 3 (ex_sized 100 0)
       = spectrum_image_dimensions init_generator 3 (ex_sized 4 1)
   \<and> standard_image_dimensions init_generator 1 1 (ex_sized 100 0)
       = calculate_image_dimensions init_generator 1 1 1
   \<and> (\<exists>w h. spectrum_image_dimensions init_generator 3 (ex_sized 100 0) = Inr (w, h))"
proof -
  note t = zero_height_aspect [of "ex_sized 100 0" init_generator 1 1 "ex_region ''UD''" 3 1]
  have z: "img_height (ex_sized 100 0) = 0" by (simp add: ex_sized_def)
  have k: "(0::nat) < 3" by simp
  have u: "ex_sized 100 0 \<lparr> img_width := 4, img_height := 1 \<rparr> = ex_sized 4 1" by (simp add: ex_sized_def)
  from t z have 1: "spectrum_image_dimensions init_generator 3 (ex_sized 100 0)
       = spectrum_image_dimensions init_generator 3 (ex_sized 100 0 \<lparr> img_width := 4, img_height := 1 \<rparr>)"
    by blast
  from t z have 2: "standard_image_dimensions init_generator 1 1 (ex_sized 100 0)
       = calculate_image_dimensions init_generator 1 1 1"
    by blast
  from t z k have 3: "\<exists>w h. spectrum_image_dimensions init_generator 3 (ex_sized 100 0) = Inr (w, h)"
    by blast
  show ?thesis using z k 1 2 3 unfolding u by (intro conjI)
qed

subsection \<open>The layout chosen for a group\<close>

lemma add_by_identifier_apply:
  "add_by_identifier d img k =
     (if k = img_identifier img
      then Some ((case d (img_identifier img) of None \<Rightarrow> [] | Some l \<Rightarrow> l) @ [img])
      else d k)"
  by (simp add: add_by_identifier_def)

lemma images_by_identifier_fold:
  "foldl add_by_identifier acc images k =
   (let xs = filter (\<lambda>img. img_identifier img = k) images in
    case acc k of
      None \<Rightarrow> if xs = [] then None else Some xs
    | Some ys \<Rightarrow> Some (ys @ xs))"
proof (induction images arbitrary: acc)
  case Nil
  then show ?case by (simp split: option.splits)
next
  case (Cons img images)
  show ?case
    by (simp only: foldl_Cons Cons.IH)
       (simp add: add_by_identifier_apply Let_def split: option.splits)
qed

lemma region_images_filter:
  "region_images images r = filter (\<lambda>img. img_identifier img = Some (region_identifier r)) images"
  by (simp add: region_images_def images_by_identifier_def images_by_identifier_fold Let_def)

lemma no_region_drawn:
  assumes "\<forall>r \<in> set regions. \<forall>img \<in> set images. img_identifier img \<noteq> Some (region_identifier r)"
  shows "filter (\<lambda>(r, imgs). imgs \<noteq> []) (map (\<lambda>r. (r, region_images images r)) regions) = []"
  using assms by (induction regions) (auto simp: region_images_filter filter_empty_conv)

text \<open>
  Claim C8, as amended. A visual profile without regions gives the grid slide of
  \<open>add_standard_slide\<close>. A visual profile whose regions match no image of the group
  does not: every region is passed over and the slide keeps its title and no image. A
  horizontal profile lays out all the images of the group as spectra, whatever their
  identifiers; a mixed profile on a group without spectra treats the first three
  images as spectra and the others as the other images. Without a profile, a group
  without spectra gives the grid slide.
\<close>

theorem add_group_slide_fallbacks:
  "(layout_profiles self l = Some prof \<and> profile_type prof = Some ''visual''
      \<and> profile_regions prof = []
     \<longrightarrow> add_group_slide self l images = add_standard_slide l images)
   \<and> (layout_profiles self l = Some prof \<and> profile_type prof = Some ''visual''
      \<and> profile_regions prof \<noteq> [] \<and> images \<noteq> []
      \<and> (\<forall>r \<in> set (profile_regions prof). \<forall>img \<in> set images.
            img_identifier img \<noteq> Some (region_identifier r))
     \<longrightarrow> add_group_slide self l images = [Slide (''Group '' @ l) (Visual [])])
   \<and> (layout_profiles self l = Some prof \<and> profile_type prof = Some ''horizontal''
     \<longrightarrow> add_group_slide self l images = add_spectrum_slide l images)
   \<and> (layout_profiles self l = Some prof \<and> profile_type prof = Some ''mixed''
      \<and> images \<noteq> [] \<and> filter is_spectrum images = []
     \<longrightarrow> add_group_slide self l images = add_mixed_slide l (take 3 images) (drop 3 images))
   \<and> (layout_profiles self l = None \<and> filter is_spectrum images = []
     \<longrightarrow> add_group_slide self l images = add_standard_slide l images)"
proof (intro conjI impI)
  assume "layout_profiles self l = Some prof \<and> profile_type prof = Some ''visual''
      \<and> profile_regions prof = []"
  then show "add_group_slide self l images = add_standard_slide l images"
    by (simp add: add_group_slide_def add_visual_custom_slide_def add_standard_slide_def)
next
  assume a: "layout_profiles self l = Some prof \<and> profile_type prof = Some ''visual''
      \<and> profile_regions prof \<noteq> [] \<and> images \<noteq> []
      \<and> (\<forall>r \<in> set (profile_regions prof). \<forall>img \<in> set images.
            img_identifier img \<noteq> Some (region_identifier r))"
  then have "filter (\<lambda>(r, imgs). imgs \<noteq> [])
               (map (\<lambda>r. (r, region_images images r)) (profile_regions prof)) = []"
    using no_region_drawn [of "profile_regions prof" images] by blast
  then show "add_group_slide self l images = [Slide (''Group '' @ l) (Visual [])]"
    using a by (simp add: add_group_slide_def add_visual_custom_slide_def)
next
  assume "layout_profiles self l = Some prof \<and> profile_type prof = Some ''horizontal''"
  then show "add_group_slide self l images = add_spectrum_slide l images"
    by (simp add: add_group_slide_def add_spectrum_slide_def)
next
  assume a: "layout_profiles self l = Some prof \<and> profile_type prof = Some ''mixed''
      \<and> images \<noteq> [] \<and> filter is_spectrum images = []"
  from a have s: "filter is_spectrum images = []" by blast
  have "forced_mixed l images = add_mixed_slide l (take 3 images) (drop 3 images)"
    unfolding forced_mixed_def Let_def s by auto
  then show "add_group_slide self l images = add_mixed_slide l (take 3 images) (drop 3 images)"
    using a by (simp add: add_group_slide_def)
next
  assume a: "layout_profiles self l = None \<and> filter is_spectrum images = []"
  then show "add_group_slide self l images = add_standard_slide l images"
    by (simp add: add_group_slide_def auto_layout_def add_standard_slide_def Let_def)
qed

text \<open>C8 on a group of one LD image: a visual profile without regions, and one with a region for UD.\<close>

theorem add_group_slide_fallbacks_witness:
  "layout_profiles (ex_profile_generator ''0001''
       \<lparr> profile_type = Some ''visual'', profile_regions = [] \<rparr>) ''0001''
     = Some \<lparr> profile_type = Some ''visual'', profile_regions = [] \<rparr>
   \<and> add_group_slide (ex_profile_generator ''0001''
         \<lparr> profile_type = Some ''visual'', profile_regions = [] \<rparr>) ''0001''
         [ex_img ''0001 LD.tif'' (Some ''LD'') (Some ''0001'')]
       = [Slide ''Group 0001'' (Grid [ex_img ''0001 LD.tif'' (Some ''LD'') (Some ''0001'')])]
   \<and> layout_profiles (ex_profile_generator ''0001''
       \<lparr> profile_type = Some ''visual'', profile_regions = [ex_region ''UD''] \<rparr>) ''0001''
     = Some \<lparr> profile_type = Some ''visual'', profile_regions = [ex_region ''UD''] \<rparr>
   \<and> add_group_slide (ex_profile_generator ''0001''
         \<lparr> profile_type = Some ''visual'', profile_regions = [ex_region ''UD''] \<rparr>) ''0001''
         [ex_img ''0001 LD.tif'' (Some ''LD'') (Some ''0001'')]
       = [Slide ''Group 0001'' (Visual [])]"
proof -
  let ?i = "ex_img ''0001 LD.tif'' (Some ''LD'') (Some ''0001'')"
  let ?p = "\<lparr> profile_type = Some ''visual'', profile_regions = [] \<rparr>"
  let ?q = "\<lparr> profile_type = Some ''visual'', profile_regions = [ex_region ''UD''] \<rparr>"
  have p: "layout_profiles (ex_profile_generator ''0001'' ?p) ''0001'' = Some ?p"
    and q: "layout_profiles (ex_profile_generator ''0001'' ?q) ''0001'' = Some ?q"
    by (simp_all add: ex_profile_generator_def)
  have 1: "add_group_slide (ex_profile_generator ''0001'' ?p) ''0001'' [?i] = add_standard_slide ''0001'' [?i]"
    using add_group_slide_fallbacks [of "ex_profile_generator ''0001'' ?p" "''0001''" ?p "[?i]"] p
    by simp
  have 2: "add_group_slide (ex_profile_generator ''0001'' ?q) ''0001'' [?i] = [Slide (''Group '' @ ''0001'') (Visual [])]"
    using add_group_slide_fallbacks [of "ex_profile_generator ''0001'' ?q" "''0001''" ?q "[?i]"] q
    by (simp add: ex_img_def ex_region_def)
  show ?thesis using p q 1 2 by (simp add: add_standard_slide_def)
qed

text \<open>
  Claim C8 as stated fails on a group of one LD image: with a visual profile whose only
  region is for UD the slide has no image, where the grid slide has the image; a
  horizontal profile gives a spectrum slide and a mixed profile a mixed slide, though
  the group has no spectrum.
\<close>

theorem visual_profile_counterexample:
  "add_group_slide (ex_profile_generator ''0001''
         \<lparr> profile_type = Some ''visual'', profile_regions = [ex_region ''UD''] \<rparr>) ''0001''
         [ex_img ''0001 LD.tif'' (Some ''LD'') (Some ''0001'')]
       = [Slide ''Group 0001'' (Visual [])]
   \<and> add_standard_slide ''0001'' [ex_img ''0001 LD.tif'' (Some ''LD'') (Some ''0001'')]
       = [Slide ''Group 0001'' (Grid [ex_img ''0001 LD.tif'' (Some ''LD'') (Some ''0001'')])]
   \<and> add_group_slide (ex_profile_generator ''0001''
         \<lparr> profile_type = Some ''horizontal'', profile_regions = [] \<rparr>) ''0001''
         [ex_img ''0001 LD.tif'' (Some ''LD'') (Some ''0001'')]
       = [Slide ''Group 0001'' (Horizontal [ex_img ''0001 LD.tif'' (Some ''LD'') (Some ''0001'')])]
   \<and> add_group_slide (ex_profile_generator ''0001''
         \<lparr> profile_type = Some ''mixed'', profile_regions = [] \<rparr>) ''0001''
         [ex_img ''0001 LD.tif'' (Some ''LD'') (Some ''0001'')]
       = [Slide ''Group 0001'' (Mixed [] [ex_img ''0001 LD.tif'' (Some ''LD'') (Some ''0001'')])]"
  by (simp add: add_group_slide_def add_visual_custom_slide_def add_standard_slide_def
      add_spectrum_slide_def forced_mixed_def add_mixed_slide_def
      ex_profile_generator_def region_images_filter ex_img_def ex_region_def slice_def
      is_spectrum_def SPECTRUM_IDENTIFIERS_def Let_def)

subsection \<open>The matcher finds matches\<close>

lemma rx_match_sound:
  "rx_match ic r s k = Some x \<Longrightarrow> \<exists>s'. matches ic r s s' \<and> k s' = Some x"
proof (induction ic r s k arbitrary: x rule: rx_match.induct)
  case (1 ic c s k)
  then obtain y ys where "rest s = y # ys" "in_item ic (CChar c) y" "k (advance s) = Some x"
    by (auto simp: rx_match.simps(1) simp del: in_item.simps split: list.splits if_splits)
  then show ?case using m_Lit by blast
next
  case (2 ic items s k)
  then obtain y ys where "rest s = y # ys" "list_ex (\<lambda>i. in_item ic i y) items"
    "k (advance s) = Some x"
    by (auto simp: rx_match.simps(2) simp del: in_item.simps split: list.splits if_splits)
  then show ?case using m_CSet by blast
next
  case (3 ic s k)
  then show ?case by (auto simp: rx_match.simps(3) split: if_splits intro: m_Bol)
next
  case (4 ic s k)
  then show ?case by (auto simp: rx_match.simps(4) split: if_splits intro: m_Eol)
next
  case (5 ic s k)
  then show ?case by (auto simp: rx_match.simps(5) intro: m_Eps)
next
  case (6 ic a b s k)
  from "6.prems" have "rx_match ic a s (\<lambda>s'. rx_match ic b s' k) = Some x"
    by (simp add: rx_match.simps(6))
  then obtain s1 where a: "matches ic a s s1" and "rx_match ic b s1 k = Some x"
    using "6.IH" by blast
  then obtain s2 where "matches ic b s1 s2" "k s2 = Some x" using "6.IH" by blast
  then show ?case using a m_Seq by blast
next
  case (7 ic a b s k)
  show ?case
  proof (cases "rx_match ic a s k")
    case None
    then have "rx_match ic b s k = Some x" using "7.prems" by (simp add: rx_match.simps(7))
    then show ?thesis using "7.IH" None m_Alt2 by blast
  next
    case (Some y)
    then have "rx_match ic a s k = Some x" using "7.prems" by (simp add: rx_match.simps(7))
    then show ?thesis using "7.IH" m_Alt1 by blast
  qed
next
  case (8 ic a s k)
  let ?K = "\<lambda>s'. if length (rest s') < length (rest s) then rx_match ic (Star a) s' k else None"
  show ?case
  proof (cases "rx_match ic a s ?K")
    case None
    then have "k s = Some x" using "8.prems" by (simp add: rx_match.simps(8))
    then show ?thesis using m_Star0 by blast
  next
    case (Some y)
    then have "rx_match ic a s ?K = Some x" using "8.prems" by (simp add: rx_match.simps(8))
    then obtain s1 where a: "matches ic a s s1" and k: "?K s1 = Some x" using "8.IH" by blast
    from k have l: "length (rest s1) < length (rest s)" and "rx_match ic (Star a) s1 k = Some x"
      by (simp_all split: if_splits)
    then obtain s2 where "matches ic (Star a) s1 s2" "k s2 = Some x" using "8.IH" by blast
    then show ?thesis using a l m_Star by blast
  qed
next
  case (9 ic a s k)
  let ?K = "\<lambda>s'. if length (rest s') < length (rest s) then rx_match ic (LazyStar a) s' k else None"
  show ?case
  proof (cases "k s")
    case (Some y)
    then have "k s = Some x" using "9.prems" by (simp add: rx_match.simps(9))
    then show ?thesis using m_Lazy0 by blast
  next
    case None
    then have "rx_match ic a s ?K = Some x" using "9.prems" by (simp add: rx_match.simps(9))
    then obtain s1 where a: "matches ic a s s1" and k: "?K s1 = Some x"
      using "9.IH" None by blast
    from k have l: "length (rest s1) < length (rest s)" and "rx_match ic (LazyStar a) s1 k = Some x"
      by (simp_all split: if_splits)
    then obtain s2 where "matches ic (LazyStar a) s1 s2" "k s2 = Some x"
      using "9.IH" None by blast
    then show ?thesis using a l m_Lazy by blast
  qed
next
  case (10 ic a s k)
  from "10.prems" have "rx_match ic a s (\<lambda>s'. k (MState (pos s') (rest s') (Some (pos s, pos s')))) = Some x"
    by (simp add: rx_match.simps(10))
  then obtain s1 where "matches ic a s s1" "k (MState (pos s1) (rest s1) (Some (pos s, pos s1))) = Some x"
    using "10.IH" by blast
  then show ?case using m_Grp by blast
qed

lemma at_subject_step:
  assumes "at_subject subject s" "rest s = w @ rest s'" "pos s' = pos s + length w"
  shows "at_subject subject s'" "slice subject (pos s) (pos s') = w"
proof -
  from assms(1) have r: "rest s = drop (pos s) subject" and p: "pos s \<le> length subject"
    by (simp_all add: at_subject_def)
  have d: "drop (pos s) subject = w @ rest s'" using r assms(2) by simp
  then have "length (drop (pos s) subject) = length w + length (rest s')" by simp
  then have le: "pos s + length w \<le> length subject" using p by simp
  have "drop (length w) (drop (pos s) subject) = rest s'" using d by simp
  then have "rest s' = drop (pos s') subject" using assms(3) by (simp add: add.commute)
  then show "at_subject subject s'" using le assms(3) by (simp add: at_subject_def)
  show "slice subject (pos s) (pos s') = w" using d assms(3) by (simp add: slice_def)
qed

subsection \<open>The text of a match\<close>

lemma matches_set:
  assumes "matches ic (CSet items) s s'"
  shows "\<exists>x. rest s = x # rest s' \<and> pos s' = pos s + 1 \<and> grp s' = grp s \<and> in_set ic items x"
  using assms by (rule m_CSetE) (auto simp: advance_def in_set_def)

lemma matches_star_set:
  "matches ic r s s' \<Longrightarrow> r = Star (CSet items) \<Longrightarrow>
   \<exists>w. rest s = w @ rest s' \<and> pos s' = pos s + length w \<and> list_all (in_set ic items) w"
proof (induction rule: matches.induct)
  case (m_Star0 a s)
  then show ?case by (intro exI [of _ "[]"]) simp
next
  case (m_Star a s s1 s2)
  then have "matches ic (CSet items) s s1" by simp
  then obtain x where x: "rest s = x # rest s1" "pos s1 = pos s + 1" "in_set ic items x"
    using matches_set by blast
  from m_Star obtain w where "rest s1 = w @ rest s2" "pos s2 = pos s1 + length w"
    "list_all (in_set ic items) w" by blast
  then show ?case using x by (intro exI [of _ "x # w"]) simp
qed simp_all

lemma matches_many1_set:
  assumes "matches ic (Many1 (CSet items)) s s'"
  shows "\<exists>w. rest s = w @ rest s' \<and> pos s' = pos s + length w \<and> w \<noteq> []
            \<and> list_all (in_set ic items) w"
proof -
  from assms obtain s1 where 1: "matches ic (CSet items) s s1" and 2: "matches ic (Star (CSet items)) s1 s'"
    unfolding Many1_def by (rule m_SeqE)
  from 1 obtain x where x: "rest s = x # rest s1" "pos s1 = pos s + 1" "in_set ic items x"
    using matches_set by blast
  from 2 obtain w where "rest s1 = w @ rest s'" "pos s' = pos s1 + length w"
    "list_all (in_set ic items) w" using matches_star_set by blast
  then show ?thesis using x by (intro exI [of _ "x # w"]) simp
qed

lemma matches_lits:
  "matches True (lits w) s s' \<Longrightarrow>
   \<exists>v. rest s = v @ rest s' \<and> pos s' = pos s + length v \<and> lower v = lower w"
proof (induction w arbitrary: s)
  case Nil
  then have "s' = s" unfolding lits_Nil by (rule m_EpsE) simp
  then show ?case by (intro exI [of _ "[]"]) (simp add: lower_def)
next
  case (Cons c w)
  from Cons.prems obtain s1 where 1: "matches True (Lit c) s s1" and 2: "matches True (lits w) s1 s'"
    unfolding lits_Cons by (rule m_SeqE)
  from 1 obtain x where x: "rest s = x # rest s1" "pos s1 = pos s + 1" "lower_char x = lower_char c"
    by (rule m_LitE) (auto simp: advance_def)
  from Cons.IH [OF 2] obtain v where "rest s1 = v @ rest s'" "pos s' = pos s1 + length v"
    "lower v = lower w" by blast
  then show ?case using x by (intro exI [of _ "x # v"]) (simp add: lower_def)
qed

lemma in_set_digit: "in_set ic [CDigit] = is_decimal"
  by (rule ext) (simp add: in_set_def)

lemma matches_four_digits:
  assumes "matches ic (Seq digit (Seq digit (Seq digit digit))) s1 s2"
  shows "\<exists>w. rest s1 = w @ rest s2 \<and> pos s2 = pos s1 + length w \<and> four_digit w"
proof -
  from assms obtain t1 t2 t3 where m: "matches ic digit s1 t1" "matches ic digit t1 t2"
    "matches ic digit t2 t3" "matches ic digit t3 s2"
    by (elim m_SeqE) blast
  from m(1) obtain a where a: "rest s1 = a # rest t1" "pos t1 = pos s1 + 1" "is_decimal a"
    using matches_set [of ic "[CDigit]"] by (auto simp: digit_def in_set_digit)
  from m(2) obtain b where b: "rest t1 = b # rest t2" "pos t2 = pos t1 + 1" "is_decimal b"
    using matches_set [of ic "[CDigit]"] by (auto simp: digit_def in_set_digit)
  from m(3) obtain c where c: "rest t2 = c # rest t3" "pos t3 = pos t2 + 1" "is_decimal c"
    using matches_set [of ic "[CDigit]"] by (auto simp: digit_def in_set_digit)
  from m(4) obtain d where d: "rest t3 = d # rest s2" "pos s2 = pos t3 + 1" "is_decimal d"
    using matches_set [of ic "[CDigit]"] by (auto simp: digit_def in_set_digit)
  show ?thesis using a b c d by (intro exI [of _ "[a, b, c, d]"]) (simp add: four_digit_def)
qed

subsection \<open>The matcher finds a match whenever there is one\<close>

lemma rx_match_complete:
  "matches ic r s s' \<Longrightarrow> k s' \<noteq> None \<Longrightarrow> rx_match ic r s k \<noteq> None"
proof (induction arbitrary: k rule: matches.induct)
  case (m_Lit s x xs c)
  then show ?case by (simp add: rx_match.simps(1) del: in_item.simps)
next
  case (m_CSet s x xs items)
  then show ?case by (simp add: rx_match.simps(2) del: in_item.simps)
next
  case (m_Bol s)
  then show ?case by (simp add: rx_match.simps(3))
next
  case (m_Eol s)
  then show ?case by (auto simp: rx_match.simps(4))
next
  case (m_Eps s)
  then show ?case by (simp add: rx_match.simps(5))
next
  case (m_Seq a s s1 b s2)
  have "rx_match ic b s1 k \<noteq> None" using m_Seq.prems by (rule m_Seq.IH(2))
  then have "rx_match ic a s (\<lambda>s'. rx_match ic b s' k) \<noteq> None"
    by (rule m_Seq.IH(1))
  then show ?case by (simp add: rx_match.simps(6))
next
  case (m_Alt1 a s s1 b)
  from m_Alt1.prems have "rx_match ic a s k \<noteq> None" by (rule m_Alt1.IH)
  then show ?case by (auto simp: rx_match.simps(7))
next
  case (m_Alt2 b s s1 a)
  from m_Alt2.prems have "rx_match ic b s k \<noteq> None" by (rule m_Alt2.IH)
  then show ?case by (auto simp: rx_match.simps(7) split: option.splits)
next
  case (m_Star0 a s)
  then show ?case by (auto simp: rx_match.simps(8) split: option.splits)
next
  case (m_Star a s s1 s2)
  let ?K = "\<lambda>s'. if length (rest s') < length (rest s) then rx_match ic (Star a) s' k else None"
  have "rx_match ic (Star a) s1 k \<noteq> None" using m_Star.prems by (rule m_Star.IH(2))
  then have "?K s1 \<noteq> None" using m_Star.hyps(2) by simp
  then have "rx_match ic a s ?K \<noteq> None" by (rule m_Star.IH(1))
  then show ?case by (auto simp: rx_match.simps(8))
next
  case (m_Lazy0 a s)
  then show ?case by (auto simp: rx_match.simps(9))
next
  case (m_Lazy a s s1 s2)
  let ?K = "\<lambda>s'. if length (rest s') < length (rest s) then rx_match ic (LazyStar a) s' k else None"
  have "rx_match ic (LazyStar a) s1 k \<noteq> None" using m_Lazy.prems by (rule m_Lazy.IH(2))
  then have "?K s1 \<noteq> None" using m_Lazy.hyps(2) by simp
  then have "rx_match ic a s ?K \<noteq> None" by (rule m_Lazy.IH(1))
  then show ?case by (auto simp: rx_match.simps(9) split: option.splits)
next
  case (m_Grp a s s1)
  from m_Grp.prems
  have "rx_match ic a s (\<lambda>s'. k (MState (pos s') (rest s') (Some (pos s, pos s')))) \<noteq> None"
    by (rule m_Grp.IH)
  then show ?case by (simp add: rx_match.simps(10))
qed

lemma match_at_None:
  "match_at ic r subject i = None \<Longrightarrow> \<not> matches ic r (MState i (drop i subject) None) s'"
  using rx_match_complete [of ic r "MState i (drop i subject) None" s' "\<lambda>s. Some (mk_match subject i s)"]
  by (auto simp: match_at_def)

lemma search_from_None:
  "search_from ic r subject start n = None \<Longrightarrow> start \<le> i \<Longrightarrow> i \<le> start + n \<Longrightarrow>
   match_at ic r subject i = None"
proof (induction n arbitrary: start)
  case 0
  then show ?case by simp
next
  case (Suc n)
  then have a: "match_at ic r subject start = None" and b: "search_from ic r subject (Suc start) n = None"
    by (auto split: option.splits)
  show ?case
  proof (cases "i = start")
    case True
    then show ?thesis using a by simp
  next
    case False
    then show ?thesis using Suc.IH [OF b] Suc.prems(2,3) by simp
  qed
qed

lemma re_search_None:
  assumes "re_search ic r subject = None" "i \<le> length subject"
  shows "\<not> matches ic r (MState i (drop i subject) None) s'"
  using search_from_None [of ic r subject 0 "length subject" i] assms match_at_None
  by (auto simp: re_search_def)

subsection \<open>Characters of the patterns\<close>

lemma code_less: "code c < 256"
  by (simp add: code_def)

lemma lower_char_moved:
  assumes "is_ascii_upper x \<or> (192 \<le> code x \<and> code x \<le> 222 \<and> code x \<noteq> 215)"
  shows "code (lower_char x) = code x + 32"
proof -
  have "code x + 32 < 256" using assms code_less [of x] by (auto simp: is_ascii_upper_def)
  then show ?thesis using assms by (simp add: lower_char_def code_char_of)
qed

lemma lower_char_other:
  assumes "\<not> (is_ascii_upper x \<or> (192 \<le> code x \<and> code x \<le> 222 \<and> code x \<noteq> 215))"
  shows "lower_char x = x"
  unfolding lower_char_def using assms by (rule if_not_P)

lemma lower_char_fixed:
  assumes "code c < 65 \<or> (90 < code c \<and> code c < 97)"
  shows "lower_char c = c" and "(lower_char x = c) = (x = c)"
proof -
  show "lower_char c = c" using assms by (intro lower_char_other) (auto simp: is_ascii_upper_def)
  show "(lower_char x = c) = (x = c)"
  proof (cases "is_ascii_upper x \<or> (192 \<le> code x \<and> code x \<le> 222 \<and> code x \<noteq> 215)")
    case True
    then have "code (lower_char x) = code x + 32" by (rule lower_char_moved)
    then have "code (lower_char x) \<noteq> code c" "code x \<noteq> code c"
      using True assms by (auto simp: is_ascii_upper_def)
    then show ?thesis by auto
  next
    case False
    then show ?thesis by (simp add: lower_char_other)
  qed
qed

lemma in_item_char:
  assumes "code c < 65 \<or> (90 < code c \<and> code c < 97)"
  shows "in_item ic (CChar c) x = (x = c)"
  using lower_char_fixed(2) [OF assms, of x] lower_char_fixed(1) [OF assms] by simp

lemma in_item_hyphen: "in_item ic (CChar CHR ''-'') x = (x = CHR ''-'')"
  by (rule in_item_char) (simp add: code_def)

lemma in_item_underscore: "in_item ic (CChar CHR ''_'') x = (x = CHR ''_'')"
  by (rule in_item_char) (simp add: code_def)

lemma in_item_paren: "in_item ic (CChar CHR ''('') x = (x = CHR ''('')"
  by (rule in_item_char) (simp add: code_def)

lemmas in_item_chars = in_item_hyphen in_item_underscore in_item_paren

lemma in_set_sep: "in_set ic [CSpace, CChar CHR ''-'', CChar CHR ''_''] = is_sep"
  by (rule ext) (simp add: in_set_def is_sep_def in_item_chars del: in_item.simps(4))




lemma in_set_after:
  "in_set ic [CSpace, CChar CHR ''_'', CChar CHR ''-'', CChar CHR ''('', CDigit] x
     = (is_sep x \<or> x = CHR ''('' \<or> is_decimal x)"
  by (auto simp: in_set_def is_sep_def in_item_chars simp del: in_item.simps(4))

lemma in_set_letter: "in_set True [CLowerRange CHR ''a'' CHR ''z''] = is_letter"
proof (rule ext)
  fix x
  have az: "code CHR ''a'' = 97" "code CHR ''z'' = 122" by (simp_all add: code_def)
  show "in_set True [CLowerRange CHR ''a'' CHR ''z''] x = is_letter x"
  proof (cases "is_ascii_upper x \<or> (192 \<le> code x \<and> code x \<le> 222 \<and> code x \<noteq> 215)")
    case True
    then have "code (lower_char x) = code x + 32" by (rule lower_char_moved)
    then show ?thesis using True
      by (auto simp: in_set_def az is_letter_def is_ascii_upper_def is_ascii_lower_def)
  next
    case False
    then have "lower_char x = x" by (rule lower_char_other)
    then show ?thesis using False
      by (auto simp: in_set_def az is_letter_def is_ascii_upper_def is_ascii_lower_def)
  qed
qed


subsection \<open>What a pattern reads\<close>

lemma reads_refl: "reads s [] s"
  by (simp add: reads_def)

lemma reads_trans: "reads s w s1 \<Longrightarrow> reads s1 w' s2 \<Longrightarrow> reads s (w @ w') s2"
  by (simp add: reads_def)

lemma reads_at_subject:
  assumes "at_subject subject s" "reads s w s'"
  shows "at_subject subject s'" "slice subject (pos s) (pos s') = w"
  using at_subject_step [OF assms(1)] assms(2) by (simp_all add: reads_def)

lemma matches_no_grp: "matches ic r s s' \<Longrightarrow> no_grp r \<Longrightarrow> grp s' = grp s"
  by (induction rule: matches.induct) (simp_all add: advance_def)

lemma no_grp_lits: "no_grp (lits w)"
  by (induction w) (simp_all add: lits_Nil lits_Cons)

lemma no_grp_Many1 [simp]: "no_grp (Many1 a) = no_grp a"
  by (simp add: Many1_def)

lemma no_grp_Opt [simp]: "no_grp (Opt a) = no_grp a"
  by (simp add: Opt_def)

lemma no_grp_ident_tail: "no_grp ident_tail"
  by (simp add: ident_tail_def digit_def)


lemma no_grp_sep_set: "no_grp sep_set"
  by (simp add: sep_set_def)

lemma no_grp_digit: "no_grp digit"
  by (simp add: digit_def)

text \<open>From a match to the text it read.\<close>

lemma reads_set:
  assumes "matches ic (CSet items) s s'"
  shows "\<exists>x. reads s [x] s' \<and> in_set ic items x"
  using matches_set [OF assms] by (auto simp: reads_def)

lemma reads_star_set:
  assumes "matches ic (Star (CSet items)) s s'"
  shows "\<exists>w. reads s w s' \<and> list_all (in_set ic items) w"
  using matches_star_set [OF assms refl] by (auto simp: reads_def)

lemma reads_many1_set:
  assumes "matches ic (Many1 (CSet items)) s s'"
  shows "\<exists>w. reads s w s' \<and> w \<noteq> [] \<and> list_all (in_set ic items) w"
  using matches_many1_set [OF assms] by (auto simp: reads_def)

lemma reads_lits:
  assumes "matches True (lits w) s s'"
  shows "\<exists>v. reads s v s' \<and> same_text v w"
  using matches_lits [OF assms] by (auto simp: reads_def same_text_def)

lemma reads_digits:
  assumes "matches ic (Many1 digit) s s'"
  shows "\<exists>d. reads s d s' \<and> digit_string d"
  using reads_many1_set [of ic "[CDigit]" s s'] assms
  by (auto simp: digit_def in_set_digit digit_string_def)

lemma reads_star_digits:
  assumes "matches ic (Star digit) s s'"
  shows "\<exists>d. reads s d s' \<and> list_all is_decimal d"
  using reads_star_set [of ic "[CDigit]" s s'] assms
  by (auto simp: digit_def in_set_digit)

lemma reads_seps:
  assumes "matches ic (Many1 sep_set) s s'"
  shows "\<exists>w. reads s w s' \<and> w \<noteq> [] \<and> list_all is_sep w"
  using reads_many1_set [of ic "[CSpace, CChar CHR ''-'', CChar CHR ''_'']" s s'] assms
  by (simp add: sep_set_def in_set_sep)

lemma reads_star_seps:
  assumes "matches ic (Star sep_set) s s'"
  shows "\<exists>w. reads s w s' \<and> list_all is_sep w"
  using reads_star_set [of ic "[CSpace, CChar CHR ''-'', CChar CHR ''_'']" s s'] assms
  by (simp add: sep_set_def in_set_sep)

lemma reads_four_digits:
  assumes "matches ic (Seq digit (Seq digit (Seq digit digit))) s s'"
  shows "\<exists>g. reads s g s' \<and> four_digit g"
  using matches_four_digits [OF assms] by (auto simp: reads_def)


lemma ident_tail_end:
  assumes "matches True ident_tail s s'"
  shows "ident_end (rest s)"
proof -
  let ?letters = "Many1 (CSet [CLowerRange CHR ''a'' CHR ''z''])"
  from assms consider
      (a) "matches True (CSet [CSpace, CChar CHR ''_'', CChar CHR ''-'', CChar CHR ''('', CDigit]) s s'"
    | (b) "matches True (Seq ?letters (Star digit)) s s'"
    | (c) "matches True Eol s s'"
    unfolding ident_tail_def by (elim m_AltE) blast+
  then show ?thesis
  proof cases
    case a
    then obtain x where "reads s [x] s'" "is_sep x \<or> x = CHR ''('' \<or> is_decimal x"
      using reads_set in_set_after by blast
    then show ?thesis by (auto simp: reads_def ident_end_def)
  next
    case b
    then obtain t where "matches True ?letters s t" by (rule m_SeqE)
    then obtain w where "reads s w t" "w \<noteq> []" "list_all is_letter w"
      using reads_many1_set in_set_letter by metis
    then show ?thesis by (cases w) (auto simp: reads_def ident_end_def)
  next
    case c
    then have "rest s = [] \<or> rest s = [CHR 0x0A]" by (rule m_EolE)
    moreover have "is_sep (CHR 0x0A)" by (simp add: is_sep_def isspace_char_def code_def)
    ultimately show ?thesis by (auto simp: ident_end_def)
  qed
qed


text \<open>From a text to a match that reads it.\<close>

lemma set_match:
  assumes "in_set ic items c"
  shows "matches ic (CSet items) (MState p (c # x) g) (MState (Suc p) x g)"
proof -
  have "matches ic (CSet items) (MState p (c # x) g) (advance (MState p (c # x) g))"
    using assms by (intro m_CSet [of _ c x]) (simp_all add: in_set_def)
  then show ?thesis by (simp add: advance_def)
qed

lemma star_set_match:
  "list_all (in_set ic items) w \<Longrightarrow>
   matches ic (Star (CSet items)) (MState p (w @ x) g) (MState (p + length w) x g)"
proof (induction w arbitrary: p)
  case Nil
  then show ?case by (simp add: m_Star0)
next
  case (Cons c w)
  have 1: "matches ic (CSet items) (MState p (c # w @ x) g) (MState (Suc p) (w @ x) g)"
    using Cons.prems by (intro set_match) simp
  have 2: "matches ic (Star (CSet items)) (MState (Suc p) (w @ x) g) (MState (Suc p + length w) x g)"
    using Cons.prems by (intro Cons.IH) simp
  show ?case using m_Star [OF 1 _ 2] by simp
qed

lemma many1_set_match:
  assumes "list_all (in_set ic items) w" "w \<noteq> []"
  shows "matches ic (Many1 (CSet items)) (MState p (w @ x) g) (MState (p + length w) x g)"
proof -
  from assms obtain c w' where w: "w = c # w'" by (cases w) auto
  have 1: "matches ic (CSet items) (MState p (c # w' @ x) g) (MState (Suc p) (w' @ x) g)"
    using assms(1) w by (intro set_match) simp
  have 2: "matches ic (Star (CSet items)) (MState (Suc p) (w' @ x) g) (MState (Suc p + length w') x g)"
    using assms(1) w by (intro star_set_match) simp
  show ?thesis unfolding Many1_def using m_Seq [OF 1 2] w by simp
qed

lemma lower_Cons: "lower (c # w) = lower_char c # lower w" and lower_Nil: "lower [] = []"
  by (simp_all add: lower_def)

lemma lits_match:
  "same_text v w \<Longrightarrow>
   matches True (lits w) (MState p (v @ x) g) (MState (p + length v) x g)"
proof (induction w arbitrary: v p)
  case Nil
  then have "v = []" by (simp add: same_text_def lower_def)
  then show ?case by (simp add: lits_Nil m_Eps)
next
  case (Cons c w)
  then obtain y v' where v: "v = y # v'" "lower_char y = lower_char c" "same_text v' w"
    by (cases v) (auto simp: same_text_def lower_def)
  have "matches True (Lit c) (MState p (y # v' @ x) g) (advance (MState p (y # v' @ x) g))"
    using v(2) by (intro m_Lit [of _ y "v' @ x"]) simp_all
  then have 1: "matches True (Lit c) (MState p (y # v' @ x) g) (MState (Suc p) (v' @ x) g)"
    by (simp add: advance_def)
  have 2: "matches True (lits w) (MState (Suc p) (v' @ x) g) (MState (Suc p + length v') x g)"
    using v(3) by (rule Cons.IH)
  show ?case unfolding lits_Cons using m_Seq [OF 1 2] v(1) by simp
qed

lemma digits_match:
  assumes "digit_string d"
  shows "matches ic (Many1 digit) (MState p (d @ x) g) (MState (p + length d) x g)"
  unfolding digit_def using assms
  by (intro many1_set_match) (simp_all add: in_set_digit digit_string_def)

lemma star_digits_match:
  assumes "list_all is_decimal d"
  shows "matches ic (Star digit) (MState p (d @ x) g) (MState (p + length d) x g)"
  unfolding digit_def using assms by (intro star_set_match) (simp add: in_set_digit)

lemma seps_match:
  assumes "list_all is_sep w" "w \<noteq> []"
  shows "matches ic (Many1 sep_set) (MState p (w @ x) g) (MState (p + length w) x g)"
  unfolding sep_set_def using assms by (intro many1_set_match) (simp_all add: in_set_sep)

lemma star_seps_match:
  assumes "list_all is_sep w"
  shows "matches ic (Star sep_set) (MState p (w @ x) g) (MState (p + length w) x g)"
  unfolding sep_set_def using assms by (intro star_set_match) (simp add: in_set_sep)

lemma grp_match:
  assumes "matches ic a (MState p (w @ x) g) (MState (p + length w) x g)"
  shows "matches ic (Grp a) (MState p (w @ x) g) (MState (p + length w) x (Some (p, p + length w)))"
  using m_Grp [OF assms] by simp

lemma four_digits_match:
  assumes "four_digit d"
  shows "matches ic (Seq digit (Seq digit (Seq digit digit)))
           (MState p (d @ x) g) (MState (p + length d) x g)"
proof -
  from assms obtain a b c e where d: "d = [a, b, c, e]"
    and dec: "is_decimal a" "is_decimal b" "is_decimal c" "is_decimal e"
    by (cases d; cases "tl d"; cases "tl (tl d)"; cases "tl (tl (tl d))")
       (auto simp: four_digit_def)
  have s: "\<And>y q r. is_decimal y \<Longrightarrow> matches ic digit (MState q (y # r) g) (MState (Suc q) r g)"
    unfolding digit_def by (intro set_match) (simp add: in_set_digit)
  have "matches ic (Seq digit (Seq digit (Seq digit digit)))
          (MState p (a # b # c # e # x) g) (MState (Suc (Suc (Suc (Suc p)))) x g)"
    using m_Seq [OF s [OF dec(1)] m_Seq [OF s [OF dec(2)] m_Seq [OF s [OF dec(3)] s [OF dec(4)]]]]
    by blast
  then show ?thesis using d by (simp add: numeral_eq_Suc)
qed


lemma ident_tail_match:
  assumes "ident_end post"
  shows "\<exists>s'. matches True ident_tail (MState p post g) s'"
proof (cases post)
  case Nil
  have "matches True Eol (MState p [] g) (MState p [] g)" by (intro m_Eol) simp
  then show ?thesis unfolding ident_tail_def Nil by (blast intro: m_Alt2)
next
  case (Cons x xs)
  then have "(is_sep x \<or> x = CHR ''('' \<or> is_decimal x) \<or> is_letter x"
    using assms by (auto simp: ident_end_def)
  then show ?thesis
  proof
    assume "is_sep x \<or> x = CHR ''('' \<or> is_decimal x"
    then have "matches True (CSet [CSpace, CChar CHR ''_'', CChar CHR ''-'', CChar CHR ''('', CDigit])
        (MState p (x # xs) g) (MState (Suc p) xs g)"
      by (intro set_match) (simp add: in_set_after)
    then show ?thesis unfolding ident_tail_def Cons by (blast intro: m_Alt1)
  next
    assume "is_letter x"
    then have "matches True (Many1 (CSet [CLowerRange CHR ''a'' CHR ''z'']))
        (MState p ([x] @ xs) g) (MState (p + length [x]) xs g)"
      by (intro many1_set_match) (simp_all add: in_set_letter)
    then have "matches True (Seq (Many1 (CSet [CLowerRange CHR ''a'' CHR ''z''])) (Star digit))
        (MState p (x # xs) g) (MState (Suc p) xs g)"
      using m_Seq [OF _ m_Star0] by simp
    then show ?thesis unfolding ident_tail_def Cons by (blast intro: m_Alt1 m_Alt2)
  qed
qed


subsection \<open>The leftmost match\<close>

lemma search_from_first:
  "search_from ic r subject start n = Some m \<Longrightarrow>
   \<exists>i. start \<le> i \<and> i \<le> start + n \<and> match_at ic r subject i = Some m
       \<and> (\<forall>j. start \<le> j \<and> j < i \<longrightarrow> match_at ic r subject j = None)"
proof (induction n arbitrary: start)
  case 0
  then show ?case by (intro exI [of _ start]) auto
next
  case (Suc n)
  show ?case
  proof (cases "match_at ic r subject start")
    case None
    then have "search_from ic r subject (Suc start) n = Some m" using Suc.prems by simp
    from Suc.IH [OF this] obtain i where i: "Suc start \<le> i" "i \<le> Suc start + n"
      "match_at ic r subject i = Some m"
      "\<forall>j. Suc start \<le> j \<and> j < i \<longrightarrow> match_at ic r subject j = None" by blast
    have "\<forall>j. start \<le> j \<and> j < i \<longrightarrow> match_at ic r subject j = None"
    proof (intro allI impI)
      fix j assume j: "start \<le> j \<and> j < i"
      show "match_at ic r subject j = None"
      proof (cases "j = start")
        case True
        then show ?thesis using None by simp
      next
        case False
        then show ?thesis using i(4) j by simp
      qed
    qed
    then show ?thesis using i(1,2,3) by (intro exI [of _ i]) simp
  next
    case (Some y)
    then have "match_at ic r subject start = Some m" using Suc.prems by simp
    then show ?thesis by (intro exI [of _ start]) auto
  qed
qed

lemma re_search_first:
  assumes "re_search ic r subject = Some m"
  shows "\<exists>i s'. i \<le> length subject \<and> matches ic r (MState i (drop i subject) None) s'
           \<and> m = mk_match subject i s' \<and> match_at ic r subject i = Some m
           \<and> (\<forall>j t. j < i \<longrightarrow> \<not> matches ic r (MState j (drop j subject) None) t)"
proof -
  from assms obtain i where i: "i \<le> length subject" "match_at ic r subject i = Some m"
    "\<forall>j. j < i \<longrightarrow> match_at ic r subject j = None"
    using search_from_first [of ic r subject 0 "length subject" m] by (auto simp: re_search_def)
  from i(2) obtain s' where "matches ic r (MState i (drop i subject) None) s'" "m = mk_match subject i s'"
    using rx_match_sound [of ic r "MState i (drop i subject) None" "\<lambda>s. Some (mk_match subject i s)" m]
    by (auto simp: match_at_def)
  moreover have "\<forall>j t. j < i \<longrightarrow> \<not> matches ic r (MState j (drop j subject) None) t"
    using i(3) match_at_None by blast
  ultimately show ?thesis using i(1,2) by blast
qed

lemma re_search_found:
  assumes "i \<le> length subject" "matches ic r (MState i (drop i subject) None) s'"
  shows "re_search ic r subject \<noteq> None"
  using re_search_None [OF _ assms(1)] assms(2) by blast

text \<open>
  A search for a pattern whose matches at a position are the texts of a given shape
  finds the leftmost text of that shape.
\<close>

lemma match_at_matches:
  assumes "match_at ic r name i = Some m"
  shows "\<exists>s'. matches ic r (MState i (drop i name) None) s' \<and> m = mk_match name i s'"
  using rx_match_sound [of ic r "MState i (drop i name) None" "\<lambda>s. Some (mk_match name i s)" m] assms
  by (auto simp: match_at_def)

lemma search_leftmost:
  assumes "re_search ic r name = Some m"
    and shape: "\<And>i. i \<le> length name \<Longrightarrow> match_at ic r name i = Some m
                 \<Longrightarrow> \<exists>d. P (take i name) d \<and> group1 m = Some d"
    and found: "\<And>pre d. P pre d \<Longrightarrow> length pre \<le> length name
                 \<and> (\<exists>s'. matches ic r (MState (length pre) (drop (length pre) name) None) s')"
  shows "\<exists>pre d. leftmost P pre d \<and> group1 m = Some d"
proof -
  from re_search_first [OF assms(1)] obtain i where i: "i \<le> length name"
    "match_at ic r name i = Some m"
    "\<forall>j t. j < i \<longrightarrow> \<not> matches ic r (MState j (drop j name) None) t" by blast
  from shape [OF i(1,2)] obtain d where d: "P (take i name) d" "group1 m = Some d" by blast
  have "length (take i name) \<le> length pre'" if "P pre' d'" for pre' d'
  proof (rule ccontr)
    assume "\<not> length (take i name) \<le> length pre'"
    then have "length pre' < i" using i(1) by simp
    then show False using found [OF that] i(3) by blast
  qed
  then have "leftmost P (take i name) d" using d(1) by (simp add: leftmost_def)
  then show ?thesis using d(2) by blast
qed

lemma search_nothing:
  assumes "re_search ic r name = None"
    and found: "\<And>pre d. P pre d \<Longrightarrow> length pre \<le> length name
                 \<and> (\<exists>s'. matches ic r (MState (length pre) (drop (length pre) name) None) s')"
  shows "\<not> P pre d"
  using found [of pre d] re_search_None [OF assms(1)] by blast

subsection \<open>The text of a match in the name\<close>

lemma start_reads:
  assumes "i \<le> length name" "reads (MState i (drop i name) None) w s'"
  shows "name = take i name @ w @ rest s'"
proof -
  have "drop i name = w @ rest s'" using assms(2) by (simp add: reads_def)
  then show ?thesis by (metis append_take_drop_id)
qed

lemma start_at_subject: "i \<le> length name \<Longrightarrow> at_subject name (MState i (drop i name) None)"
  by (simp add: at_subject_def)

lemma grp_reads:
  assumes "matches ic (Grp a) s s'"
    and "\<And>t. matches ic a s t \<Longrightarrow> \<exists>w. reads s w t \<and> P w"
  shows "\<exists>w. reads s w s' \<and> P w \<and> grp s' = Some (pos s, pos s + length w)"
proof -
  from assms(1) obtain t where t: "matches ic a s t" "s' = MState (pos t) (rest t) (Some (pos s, pos t))"
    by (rule m_GrpE)
  from assms(2) [OF t(1)] obtain w where "reads s w t" "P w" by blast
  then show ?thesis using t(2) by (intro exI [of _ w]) (simp add: reads_def)
qed

lemma group1_text:
  assumes "at_subject name s" "reads s d t" "grp s' = Some (pos s, pos s + length d)"
  shows "group1 (mk_match name i s') = Some d"
proof -
  have "slice name (pos s) (pos t) = d" using reads_at_subject(2) [OF assms(1,2)] .
  moreover have "pos t = pos s + length d" using assms(2) by (simp add: reads_def)
  ultimately show ?thesis using assms(3) by (simp add: mk_match_def)
qed

lemma decomposed:
  assumes "name = pre @ w"
  shows "length pre \<le> length name" "drop (length pre) name = w"
  using assms by simp_all

subsection \<open>Digits before the identifier\<close>

lemma num_pattern2_shape:
  assumes i: "i \<le> length name"
    and "match_at True (num_pattern2 identifier) name i = Some m"
  shows "\<exists>d. digits_before identifier name (take i name) d \<and> group1 m = Some d"
proof -
  let ?s = "MState i (drop i name) None"
  from match_at_matches [OF assms(2)] obtain s' where m: "matches True (num_pattern2 identifier) ?s s'"
    and mk: "m = mk_match name i s'" by blast
  from m obtain s1 s2 s3 where 1: "matches True (Grp (Many1 digit)) ?s s1"
    and 2: "matches True (Many1 sep_set) s1 s2"
    and 3: "matches True (lits identifier) s2 s3"
    and 4: "matches True ident_tail s3 s'"
    unfolding num_pattern2_def by (elim m_SeqE) blast
  have "\<exists>d. reads ?s d s1 \<and> digit_string d \<and> grp s1 = Some (pos ?s, pos ?s + length d)"
    using 1 by (rule grp_reads) (rule reads_digits)
  then obtain d where d: "reads ?s d s1" "digit_string d"
    "grp s1 = Some (pos ?s, pos ?s + length d)" by blast
  from reads_seps [OF 2] obtain w where w: "reads s1 w s2" "w \<noteq> []" "list_all is_sep w" by blast
  from reads_lits [OF 3] obtain v where v: "reads s2 v s3" "same_text v identifier" by blast
  have e: "ident_end (rest s3)" using 4 by (rule ident_tail_end)
  have "grp s' = grp s1"
    using matches_no_grp [OF 2] matches_no_grp [OF 3] matches_no_grp [OF 4]
    by (simp add: no_grp_lits no_grp_ident_tail no_grp_sep_set)
  then have "group1 m = Some d"
    using group1_text [OF start_at_subject [OF i] d(1)] d(3) mk by simp
  moreover have "name = take i name @ d @ w @ v @ rest s3"
    using start_reads [OF i reads_trans [OF d(1) reads_trans [OF w(1) v(1)]]] by simp
  then have "digits_before identifier name (take i name) d"
    unfolding digits_before_def using d(2) w(2,3) v(2) e by blast
  ultimately show ?thesis by blast
qed

lemma num_pattern2_found:
  assumes "digits_before identifier name pre d"
  shows "length pre \<le> length name
    \<and> (\<exists>s'. matches True (num_pattern2 identifier) (MState (length pre) (drop (length pre) name) None) s')"
proof -
  from assms obtain s1 v post where n: "name = pre @ d @ s1 @ v @ post"
    and p: "digit_string d" "s1 \<noteq> []" "list_all is_sep s1" "same_text v identifier" "ident_end post"
    by (auto simp: digits_before_def)
  let ?p = "length pre"
  have 1: "matches True (Grp (Many1 digit)) (MState ?p (d @ s1 @ v @ post) None)
             (MState (?p + length d) (s1 @ v @ post) (Some (?p, ?p + length d)))"
    by (intro grp_match digits_match p)
  have 2: "matches True (Many1 sep_set) (MState (?p + length d) (s1 @ v @ post) (Some (?p, ?p + length d)))
             (MState (?p + length d + length s1) (v @ post) (Some (?p, ?p + length d)))"
    by (intro seps_match p)
  have 3: "matches True (lits identifier) (MState (?p + length d + length s1) (v @ post) (Some (?p, ?p + length d)))
             (MState (?p + length d + length s1 + length v) post (Some (?p, ?p + length d)))"
    by (intro lits_match p)
  from ident_tail_match [OF p(5)] obtain s' where
    4: "matches True ident_tail (MState (?p + length d + length s1 + length v) post (Some (?p, ?p + length d))) s'"
    by blast
  have "matches True (num_pattern2 identifier) (MState ?p (d @ s1 @ v @ post) None) s'"
    unfolding num_pattern2_def by (intro m_Seq [OF 1] m_Seq [OF 2] m_Seq [OF 3] 4)
  then show ?thesis using decomposed [OF n] by auto
qed

lemma search_num_pattern2:
  "re_search True (num_pattern2 identifier) name = Some m \<Longrightarrow>
     \<exists>pre d. leftmost (digits_before identifier name) pre d \<and> group1 m = Some d"
  "re_search True (num_pattern2 identifier) name = None \<Longrightarrow> \<not> digits_before identifier name pre d"
proof -
  show "\<exists>pre d. leftmost (digits_before identifier name) pre d \<and> group1 m = Some d"
    if "re_search True (num_pattern2 identifier) name = Some m"
    using that by (rule search_leftmost) (rule num_pattern2_shape num_pattern2_found; assumption)+
  show "\<not> digits_before identifier name pre d"
    if "re_search True (num_pattern2 identifier) name = None"
    using that by (rule search_nothing) (rule num_pattern2_found)
qed

subsection \<open>Four digits before the identifier\<close>

lemma num_pattern_shape:
  assumes i: "i \<le> length name"
    and "match_at True (num_pattern identifier) name i = Some m"
  shows "\<exists>g. four_before identifier name (take i name) g \<and> group1 m = Some g"
proof -
  let ?s = "MState i (drop i name) None"
  from match_at_matches [OF assms(2)] obtain s' where m: "matches True (num_pattern identifier) ?s s'"
    and mk: "m = mk_match name i s'" by blast
  from m obtain s1 s2 s3 s4 s5 where
        1: "matches True (Grp (Seq digit (Seq digit (Seq digit digit)))) ?s s1"
    and 2: "matches True (Many1 sep_set) s1 s2"
    and 3: "matches True (Star digit) s2 s3"
    and 4: "matches True (Star sep_set) s3 s4"
    and 5: "matches True (lits identifier) s4 s5"
    and 6: "matches True ident_tail s5 s'"
    unfolding num_pattern_def by (elim m_SeqE) blast
  have "\<exists>g. reads ?s g s1 \<and> four_digit g \<and> grp s1 = Some (pos ?s, pos ?s + length g)"
    using 1 by (rule grp_reads) (rule reads_four_digits)
  then obtain g where g: "reads ?s g s1" "four_digit g"
    "grp s1 = Some (pos ?s, pos ?s + length g)" by blast
  from reads_seps [OF 2] obtain w1 where w1: "reads s1 w1 s2" "w1 \<noteq> []" "list_all is_sep w1" by blast
  from reads_star_digits [OF 3] obtain ds where ds: "reads s2 ds s3" "list_all is_decimal ds" by blast
  from reads_star_seps [OF 4] obtain w2 where w2: "reads s3 w2 s4" "list_all is_sep w2" by blast
  from reads_lits [OF 5] obtain v where v: "reads s4 v s5" "same_text v identifier" by blast
  have e: "ident_end (rest s5)" using 6 by (rule ident_tail_end)
  have "grp s' = grp s1"
    using matches_no_grp [OF 2] matches_no_grp [OF 3] matches_no_grp [OF 4]
      matches_no_grp [OF 5] matches_no_grp [OF 6]
    by (simp add: no_grp_lits no_grp_ident_tail no_grp_sep_set no_grp_digit)
  then have "group1 m = Some g"
    using group1_text [OF start_at_subject [OF i] g(1)] g(3) mk by simp
  moreover have "name = take i name @ g @ w1 @ ds @ w2 @ v @ rest s5"
    using start_reads [OF i reads_trans [OF g(1) reads_trans [OF w1(1)
      reads_trans [OF ds(1) reads_trans [OF w2(1) v(1)]]]]] by simp
  then have "four_before identifier name (take i name) g"
    unfolding four_before_def using g(2) w1(2,3) ds(2) w2(2) v(2) e by blast
  ultimately show ?thesis by blast
qed

lemma num_pattern_found:
  assumes "four_before identifier name pre g"
  shows "length pre \<le> length name
    \<and> (\<exists>s'. matches True (num_pattern identifier) (MState (length pre) (drop (length pre) name) None) s')"
proof -
  from assms obtain s1 ds s2 v post where n: "name = pre @ g @ s1 @ ds @ s2 @ v @ post"
    and p: "four_digit g" "s1 \<noteq> []" "list_all is_sep s1" "list_all is_decimal ds"
      "list_all is_sep s2" "same_text v identifier" "ident_end post"
    by (auto simp: four_before_def)
  let ?p = "length pre" and ?g = "Some (length pre, length pre + length g)"
  have 1: "matches True (Grp (Seq digit (Seq digit (Seq digit digit))))
             (MState ?p (g @ s1 @ ds @ s2 @ v @ post) None)
             (MState (?p + length g) (s1 @ ds @ s2 @ v @ post) ?g)"
    by (intro grp_match four_digits_match p)
  have 2: "matches True (Many1 sep_set) (MState (?p + length g) (s1 @ ds @ s2 @ v @ post) ?g)
             (MState (?p + length g + length s1) (ds @ s2 @ v @ post) ?g)"
    by (intro seps_match p)
  have 3: "matches True (Star digit) (MState (?p + length g + length s1) (ds @ s2 @ v @ post) ?g)
             (MState (?p + length g + length s1 + length ds) (s2 @ v @ post) ?g)"
    by (intro star_digits_match p)
  have 4: "matches True (Star sep_set) (MState (?p + length g + length s1 + length ds) (s2 @ v @ post) ?g)
             (MState (?p + length g + length s1 + length ds + length s2) (v @ post) ?g)"
    by (intro star_seps_match p)
  have 5: "matches True (lits identifier)
             (MState (?p + length g + length s1 + length ds + length s2) (v @ post) ?g)
             (MState (?p + length g + length s1 + length ds + length s2 + length v) post ?g)"
    by (intro lits_match p)
  from ident_tail_match [OF p(7)] obtain s' where
    6: "matches True ident_tail
          (MState (?p + length g + length s1 + length ds + length s2 + length v) post ?g) s'"
    by blast
  have "matches True (num_pattern identifier) (MState ?p (g @ s1 @ ds @ s2 @ v @ post) None) s'"
    unfolding num_pattern_def
    by (intro m_Seq [OF 1] m_Seq [OF 2] m_Seq [OF 3] m_Seq [OF 4] m_Seq [OF 5] 6)
  then show ?thesis using decomposed [OF n] by auto
qed

lemma search_num_pattern:
  "re_search True (num_pattern identifier) name = Some m \<Longrightarrow>
     \<exists>pre g. leftmost (four_before identifier name) pre g \<and> group1 m = Some g"
  "re_search True (num_pattern identifier) name = None \<Longrightarrow> \<not> four_before identifier name pre g"
proof -
  show "\<exists>pre g. leftmost (four_before identifier name) pre g \<and> group1 m = Some g"
    if "re_search True (num_pattern identifier) name = Some m"
    using that by (rule search_leftmost) (rule num_pattern_shape num_pattern_found; assumption)+
  show "\<not> four_before identifier name pre g"
    if "re_search True (num_pattern identifier) name = None"
    using that by (rule search_nothing) (rule num_pattern_found)
qed

subsection \<open>Digits after the identifier\<close>

lemma rx_match_digit_None:
  assumes "r = [] \<or> \<not> is_decimal (hd r)"
  shows "rx_match ic digit (MState p r g) k = None"
  using assms by (cases r) (auto simp: digit_def rx_match.simps(2))

lemma rx_match_digit_Some:
  assumes "is_decimal c"
  shows "rx_match ic digit (MState p (c # r) g) k = k (MState (Suc p) r g)"
  using assms by (simp add: digit_def rx_match.simps(2) advance_def)

lemma rx_match_star_greedy:
  "list_all is_decimal ds \<Longrightarrow> r = [] \<or> \<not> is_decimal (hd r) \<Longrightarrow>
   k (MState (p + length ds) r g) \<noteq> None \<Longrightarrow>
   rx_match ic (Star digit) (MState p (ds @ r) g) k = k (MState (p + length ds) r g)"
proof (induction ds arbitrary: p)
  case Nil
  then show ?case by (subst rx_match.simps) (simp add: rx_match_digit_None)
next
  case (Cons d ds)
  from Cons.prems have d: "is_decimal d" and ds: "list_all is_decimal ds" by simp_all
  have k: "k (MState (Suc p + length ds) r g) \<noteq> None" using Cons.prems by simp
  have ih: "rx_match ic (Star digit) (MState (Suc p) (ds @ r) g) k = k (MState (Suc p + length ds) r g)"
    using Cons.IH [OF ds Cons.prems(2) k] .
  have "rx_match ic (Star digit) (MState p ((d # ds) @ r) g) k
          = rx_match ic (Star digit) (MState (Suc p) (ds @ r) g) k"
    using d ih k
    by (subst rx_match.simps) (auto simp: rx_match_digit_Some split: option.splits)
  then show ?case using ih by simp
qed

lemma rx_match_grp_digits:
  assumes "rx_match ic (Grp (Many1 digit)) s k = Some m" and k: "\<And>t. k t \<noteq> None"
  shows "\<exists>d r. rest s = d @ r \<and> digit_string d \<and> (r = [] \<or> \<not> is_decimal (hd r))
            \<and> k (MState (pos s + length d) r (Some (pos s, pos s + length d))) = Some m"
proof -
  let ?k = "\<lambda>s'. k (MState (pos s') (rest s') (Some (pos s, pos s')))"
  have s: "s = MState (pos s) (rest s) (grp s)" by simp
  have m: "rx_match ic digit s (\<lambda>s'. rx_match ic (Star digit) s' ?k) = Some m"
    using assms(1) by (simp add: rx_match.simps(10) Many1_def rx_match.simps(6))
  show ?thesis
  proof (cases "rest s = [] \<or> \<not> is_decimal (hd (rest s))")
    case True
    then have "rx_match ic digit (MState (pos s) (rest s) (grp s)) (\<lambda>s'. rx_match ic (Star digit) s' ?k) = None"
      by (rule rx_match_digit_None)
    then show ?thesis using m by simp
  next
    case False
    then obtain c cs where c: "rest s = c # cs" "is_decimal c" by (cases "rest s") auto
    let ?ds = "takeWhile is_decimal cs" and ?r = "dropWhile is_decimal cs"
    have r: "?r = [] \<or> \<not> is_decimal (hd ?r)" by (metis hd_dropWhile)
    have ds: "list_all is_decimal ?ds" by (simp add: list_all_iff) (metis set_takeWhileD)
    have "rx_match ic digit (MState (pos s) (c # cs) (grp s)) (\<lambda>s'. rx_match ic (Star digit) s' ?k)
            = rx_match ic (Star digit) (MState (Suc (pos s)) cs (grp s)) ?k"
      using c(2) by (rule rx_match_digit_Some)
    also have "\<dots> = rx_match ic (Star digit) (MState (Suc (pos s)) (?ds @ ?r) (grp s)) ?k" by simp
    also have "\<dots> = ?k (MState (Suc (pos s) + length ?ds) ?r (grp s))"
      using ds r k by (intro rx_match_star_greedy) auto
    finally have "?k (MState (Suc (pos s) + length ?ds) ?r (grp s)) = Some m"
      using m c(1) by (metis s)
    then have "k (MState (pos s + length (c # ?ds)) ?r (Some (pos s, pos s + length (c # ?ds)))) = Some m"
      by simp
    moreover have "rest s = (c # ?ds) @ ?r" using c(1) by simp
    moreover have "digit_string (c # ?ds)" using c(2) ds by (simp add: digit_string_def)
    ultimately show ?thesis using r by blast
  qed
qed

lemma num_pattern_after_shape:
  assumes i: "i \<le> length name"
    and "match_at True (num_pattern_after identifier) name i = Some m"
  shows "\<exists>d. digits_after identifier name (take i name) d \<and> group1 m = Some d"
proof -
  let ?s = "MState i (drop i name) None" and ?K = "\<lambda>s. Some (mk_match name i s)"
  have "rx_match True (lits identifier) ?s
          (\<lambda>s1. rx_match True (Many1 sep_set) s1 (\<lambda>s2. rx_match True (Grp (Many1 digit)) s2 ?K)) = Some m"
    using assms(2) by (simp add: match_at_def num_pattern_after_def rx_match.simps(6))
  from rx_match_sound [OF this] obtain s1 where 1: "matches True (lits identifier) ?s s1"
    and "rx_match True (Many1 sep_set) s1 (\<lambda>s2. rx_match True (Grp (Many1 digit)) s2 ?K) = Some m"
    by blast
  from rx_match_sound [OF this(2)] obtain s2 where 2: "matches True (Many1 sep_set) s1 s2"
    and "rx_match True (Grp (Many1 digit)) s2 ?K = Some m" by blast
  from rx_match_grp_digits [OF this(2)] obtain d r where d: "rest s2 = d @ r" "digit_string d"
    "r = [] \<or> \<not> is_decimal (hd r)"
    "m = mk_match name i (MState (pos s2 + length d) r (Some (pos s2, pos s2 + length d)))"
    by auto
  from reads_lits [OF 1] obtain v where v: "reads ?s v s1" "same_text v identifier" by blast
  from reads_seps [OF 2] obtain w where w: "reads s1 w s2" "w \<noteq> []" "list_all is_sep w" by blast
  let ?t = "MState (pos s2 + length d) r (Some (pos s2, pos s2 + length d))"
  have rd: "reads s2 d ?t" using d(1) by (simp add: reads_def)
  have a: "at_subject name s2"
    using reads_at_subject(1) [OF start_at_subject [OF i] reads_trans [OF v(1) w(1)]] .
  have "group1 m = Some d" unfolding d(4) using a rd by (rule group1_text) simp
  moreover have "name = take i name @ v @ w @ d @ r"
    using start_reads [OF i reads_trans [OF v(1) reads_trans [OF w(1) rd]]] by simp
  then have "digits_after identifier name (take i name) d"
    unfolding digits_after_def using v(2) w(2,3) d(2,3) by blast
  ultimately show ?thesis by blast
qed

lemma num_pattern_after_found:
  assumes "digits_after identifier name pre d"
  shows "length pre \<le> length name
    \<and> (\<exists>s'. matches True (num_pattern_after identifier) (MState (length pre) (drop (length pre) name) None) s')"
proof -
  from assms obtain v s1 post where n: "name = pre @ v @ s1 @ d @ post"
    and p: "same_text v identifier" "s1 \<noteq> []" "list_all is_sep s1" "digit_string d"
    by (auto simp: digits_after_def)
  let ?p = "length pre"
  have 1: "matches True (lits identifier) (MState ?p (v @ s1 @ d @ post) None)
             (MState (?p + length v) (s1 @ d @ post) None)"
    by (intro lits_match p)
  have 2: "matches True (Many1 sep_set) (MState (?p + length v) (s1 @ d @ post) None)
             (MState (?p + length v + length s1) (d @ post) None)"
    by (intro seps_match p)
  have 3: "matches True (Grp (Many1 digit)) (MState (?p + length v + length s1) (d @ post) None)
             (MState (?p + length v + length s1 + length d) post
                (Some (?p + length v + length s1, ?p + length v + length s1 + length d)))"
    by (intro grp_match digits_match p)
  have "\<exists>s'. matches True (num_pattern_after identifier) (MState ?p (v @ s1 @ d @ post) None) s'"
    unfolding num_pattern_after_def using m_Seq [OF 1 m_Seq [OF 2 3]] by blast
  then show ?thesis using decomposed [OF n] by auto
qed

lemma search_num_pattern_after:
  "re_search True (num_pattern_after identifier) name = Some m \<Longrightarrow>
     \<exists>pre d. leftmost (digits_after identifier name) pre d \<and> group1 m = Some d"
  "re_search True (num_pattern_after identifier) name = None \<Longrightarrow> \<not> digits_after identifier name pre d"
proof -
  show "\<exists>pre d. leftmost (digits_after identifier name) pre d \<and> group1 m = Some d"
    if "re_search True (num_pattern_after identifier) name = Some m"
    using that by (rule search_leftmost) (rule num_pattern_after_shape num_pattern_after_found; assumption)+
  show "\<not> digits_after identifier name pre d"
    if "re_search True (num_pattern_after identifier) name = None"
    using that by (rule search_nothing) (rule num_pattern_after_found)
qed

subsection \<open>A number after the identifier\<close>






subsection \<open>A number at the end of the name\<close>











subsection \<open>The identifier in the name\<close>

lemma in_set_sep3: "in_set ic [CSpace, CChar CHR ''_'', CChar CHR ''-''] = is_sep"
  by (rule ext) (auto simp: in_set_def is_sep_def in_item_chars simp del: in_item.simps(4))

lemma ident_pattern_shape:
  assumes i: "i \<le> length name"
    and "match_at True (ident_pattern identifier) name i = Some m"
  shows "\<exists>v. occurs identifier name v \<and> group1 m = Some v"
proof -
  let ?s = "MState i (drop i name) None"
  from match_at_matches [OF assms(2)] obtain s' where m: "matches True (ident_pattern identifier) ?s s'"
    and mk: "m = mk_match name i s'" by blast
  from m obtain s1 s2 where
        1: "matches True (Alt Bol (CSet [CSpace, CChar CHR ''_'', CChar CHR ''-''])) ?s s1"
    and 2: "matches True (Grp (lits identifier)) s1 s2"
    and 3: "matches True ident_tail s2 s'"
    unfolding ident_pattern_def by (elim m_SeqE) blast
  have "\<exists>v. reads s1 v s2 \<and> same_text v identifier \<and> grp s2 = Some (pos s1, pos s1 + length v)"
    using 2 by (rule grp_reads) (rule reads_lits)
  then obtain v where v: "reads s1 v s2" "same_text v identifier"
    "grp s2 = Some (pos s1, pos s1 + length v)" by blast
  have e: "ident_end (rest s2)" using 3 by (rule ident_tail_end)
  have g: "grp s' = grp s2" using matches_no_grp [OF 3] by (simp add: no_grp_ident_tail)
  from 1 have "\<exists>pre. reads ?s pre s1 \<and> (take i name @ pre = [] \<or> is_sep (last (take i name @ pre)))"
  proof (rule m_AltE)
    assume "matches True Bol ?s s1"
    then have "s1 = ?s \<and> i = 0" by (rule m_BolE) simp
    then show ?thesis by (intro exI [of _ "[]"]) (simp add: reads_def)
  next
    assume "matches True (CSet [CSpace, CChar CHR ''_'', CChar CHR ''-'']) ?s s1"
    from reads_set [OF this] obtain x where "reads ?s [x] s1" "is_sep x" by (auto simp: in_set_sep3)
    then show ?thesis by (intro exI [of _ "[x]"]) simp
  qed
  then obtain pre where pre: "reads ?s pre s1"
    "take i name @ pre = [] \<or> is_sep (last (take i name @ pre))" by blast
  have a: "at_subject name s1" using reads_at_subject(1) [OF start_at_subject [OF i] pre(1)] .
  have "group1 m = Some v" using group1_text [OF a v(1)] v(3) g mk by simp
  moreover have "name = (take i name @ pre) @ v @ rest s2"
    using start_reads [OF i reads_trans [OF pre(1) v(1)]] by simp
  then have "occurs identifier name v"
    unfolding occurs_def using pre(2) v(2) e by blast
  ultimately show ?thesis by blast
qed

lemma ident_pattern_found:
  assumes "occurs identifier name v"
  shows "\<exists>i s'. i \<le> length name \<and> matches True (ident_pattern identifier) (MState i (drop i name) None) s'"
proof -
  from assms obtain pre post where n: "name = pre @ v @ post"
    and b: "pre = [] \<or> is_sep (last pre)" and p: "same_text v identifier" "ident_end post"
    unfolding occurs_def by blast
  have tl: "\<exists>s'. matches True (Seq (Grp (lits identifier)) ident_tail) (MState q (v @ post) None) s'" for q
  proof -
    have 2: "matches True (Grp (lits identifier)) (MState q (v @ post) None)
               (MState (q + length v) post (Some (q, q + length v)))"
      by (intro grp_match lits_match p)
    from ident_tail_match [OF p(2)] obtain s' where
      "matches True ident_tail (MState (q + length v) post (Some (q, q + length v))) s'" by blast
    then show ?thesis using m_Seq [OF 2] by blast
  qed
  show ?thesis
  proof (cases "pre = []")
    case True
    from tl [of 0] obtain s' where
      2: "matches True (Seq (Grp (lits identifier)) ident_tail) (MState 0 (v @ post) None) s'" by blast
    have "matches True Bol (MState 0 (v @ post) None) (MState 0 (v @ post) None)"
      by (intro m_Bol) simp
    then have "matches True (Alt Bol (CSet [CSpace, CChar CHR ''_'', CChar CHR ''-'']))
        (MState 0 (v @ post) None) (MState 0 (v @ post) None)" by (rule m_Alt1)
    from m_Seq [OF this 2] have "matches True (ident_pattern identifier) (MState 0 (drop 0 name) None) s'"
      unfolding ident_pattern_def using n True by simp
    then show ?thesis by blast
  next
    case False
    then have sep: "is_sep (last pre)" using b by simp
    let ?p = "length pre - 1"
    have pre: "pre = butlast pre @ [last pre]" using False by simp
    have lb: "length (butlast pre) = ?p" by simp
    have "name = butlast pre @ (last pre # v @ post)"
      using n pre by (metis append_Cons append_Nil append_assoc)
    then have dr: "drop ?p name = last pre # v @ post" using lb by (metis append_eq_conv_conj)
    have "matches True (CSet [CSpace, CChar CHR ''_'', CChar CHR ''-''])
             (MState ?p (last pre # v @ post) None) (MState (Suc ?p) (v @ post) None)"
      using sep by (intro set_match) (simp add: in_set_sep3)
    then have 1: "matches True (Alt Bol (CSet [CSpace, CChar CHR ''_'', CChar CHR ''-'']))
             (MState ?p (last pre # v @ post) None) (MState (Suc ?p) (v @ post) None)" by (rule m_Alt2)
    from tl [of "Suc ?p"] obtain s' where
      2: "matches True (Seq (Grp (lits identifier)) ident_tail) (MState (Suc ?p) (v @ post) None) s'" by blast
    have "matches True (ident_pattern identifier) (MState ?p (drop ?p name) None) s'"
      unfolding ident_pattern_def dr using m_Seq [OF 1 2] .
    moreover have "?p \<le> length name" using n by simp
    ultimately show ?thesis by blast
  qed
qed

lemma search_ident_pattern:
  "re_search True (ident_pattern identifier) name = Some m \<Longrightarrow>
     \<exists>v. occurs identifier name v \<and> group1 m = Some v"
  "re_search True (ident_pattern identifier) name = None \<Longrightarrow> \<not> occurs identifier name v"
proof -
  show "\<exists>v. occurs identifier name v \<and> group1 m = Some v"
    if "re_search True (ident_pattern identifier) name = Some m"
    using re_search_first [OF that] ident_pattern_shape by blast
  show "\<not> occurs identifier name v" if "re_search True (ident_pattern identifier) name = None"
    using ident_pattern_found [of "identifier" name v] re_search_None [OF that] by blast
qed

lemma find_identifier_first:
  "find_identifier identifiers name = Some (identifier, mt) \<Longrightarrow>
   first_identifier identifiers name identifier
   \<and> (\<exists>v. occurs identifier name v \<and> group1 mt = Some v)"
proof (induction identifiers)
  case Nil
  then show ?case by simp
next
  case (Cons x xs)
  show ?case
  proof (cases "re_search True (ident_pattern x) name")
    case None
    then have f: "find_identifier xs name = Some (identifier, mt)" using Cons.prems by simp
    from Cons.IH [OF f] obtain before after where
      b: "xs = before @ identifier # after" "list_all (\<lambda>other. \<forall>v. \<not> occurs other name v) before"
         "\<exists>v. occurs identifier name v"
      and v: "\<exists>v. occurs identifier name v \<and> group1 mt = Some v"
      unfolding first_identifier_def by blast
    have "\<forall>v. \<not> occurs x name v" using search_ident_pattern(2) [OF None] by blast
    then have "first_identifier (x # xs) name identifier"
      unfolding first_identifier_def using b
      by (intro exI [of _ "x # before"] exI [of _ after]) simp
    then show ?thesis using v by blast
  next
    case (Some m)
    then have eq: "x = identifier" "m = mt" using Cons.prems by simp_all
    from search_ident_pattern(1) [OF Some] obtain v where v: "occurs x name v" "group1 m = Some v"
      by blast
    have "first_identifier (x # xs) name x"
      unfolding first_identifier_def using v(1)
      by (intro exI [of _ "[]"] exI [of _ xs]) auto
    then show ?thesis using v eq by blast
  qed
qed

lemma first_identifier_found:
  assumes "first_identifier identifiers name identifier"
  shows "\<exists>mt v. find_identifier identifiers name = Some (identifier, mt)
           \<and> occurs identifier name v \<and> group1 mt = Some v"
proof -
  from assms obtain before after where
    b: "identifiers = before @ identifier # after"
       "list_all (\<lambda>other. \<forall>v. \<not> occurs other name v) before"
       "\<exists>v. occurs identifier name v"
    unfolding first_identifier_def by blast
  from b(3) obtain v0 where "occurs identifier name v0" by blast
  then have "re_search True (ident_pattern identifier) name \<noteq> None"
    using search_ident_pattern(2) by blast
  then obtain m where m: "re_search True (ident_pattern identifier) name = Some m" by blast
  have "find_identifier (before @ identifier # after) name = Some (identifier, m)"
    using b(2)
  proof (induction before)
    case Nil
    then show ?case using m by simp
  next
    case (Cons x xs)
    then have "\<forall>v. \<not> occurs x name v" by simp
    then have "re_search True (ident_pattern x) name = None"
      using search_ident_pattern(1) [of x name] by (cases "re_search True (ident_pattern x) name") auto
    then show ?case using Cons by simp
  qed
  then show ?thesis using search_ident_pattern(1) [OF m] b(1) by blast
qed

subsection \<open>The classifier\<close>

lemma zfill_digit_string:
  assumes "digit_string d"
  shows "zfill 4 d = zero_padded d"
proof -
  from assms obtain c cs where d: "d = c # cs" "is_decimal c"
    by (cases d) (auto simp: digit_string_def)
  then have "c \<noteq> CHR ''+''" "c \<noteq> CHR ''-''" by (auto simp: is_decimal_def code_def)
  then show ?thesis using d by (simp add: zfill_def zero_padded_def)
qed

lemma padded_digit_string:
  assumes "group1 m = Some d" "digit_string d"
  shows "padded m = Inr (zero_padded d)"
  using assms by (simp add: padded_def zfill_digit_string)

lemma leftmostD: "leftmost P pre d \<Longrightarrow> P pre d"
  by (simp add: leftmost_def)

lemma classify_groupable_number:
  "\<exists>number full. classify_groupable identifier mt name = Inr (number, Some identifier, full)
     \<and> (if \<exists>pre g. four_before identifier name pre g
        then (\<exists>pre g. leftmost (four_before identifier name) pre g \<and> number = Some g)
             \<and> full \<noteq> None
        else if \<exists>pre d. digits_before identifier name pre d
        then (\<exists>pre d. leftmost (digits_before identifier name) pre d \<and> number = Some (zero_padded d))
             \<and> full \<noteq> None
        else if \<exists>pre d. digits_after identifier name pre d
        then (\<exists>pre d. leftmost (digits_after identifier name) pre d \<and> number = Some (zero_padded d))
             \<and> full \<noteq> None
        else number = None \<and> full = group1 mt)"
proof (cases "re_search True (num_pattern identifier) name")
  case (Some m)
  from search_num_pattern(1) [OF Some] obtain pre g where
    l: "leftmost (four_before identifier name) pre g" "group1 m = Some g" by blast
  then have "\<exists>pre g. four_before identifier name pre g" using leftmostD by blast
  then show ?thesis using Some l by (auto simp: classify_groupable_def)
next
  case n1: None
  then have a: "\<not> (\<exists>pre g. four_before identifier name pre g)"
    using search_num_pattern(2) by blast
  show ?thesis
  proof (cases "re_search True (num_pattern2 identifier) name")
    case (Some m)
    from search_num_pattern2(1) [OF Some] obtain pre d where
      l: "leftmost (digits_before identifier name) pre d" "group1 m = Some d" by blast
    then have b: "digits_before identifier name pre d" using leftmostD by blast
    then have "digit_string d" by (auto simp: digits_before_def)
    then have "padded m = Inr (zero_padded d)" using l(2) by (intro padded_digit_string)
    then show ?thesis using a b n1 Some l(1) by (auto simp: classify_groupable_def)
  next
    case n2: None
    then have b: "\<not> (\<exists>pre d. digits_before identifier name pre d)"
      using search_num_pattern2(2) by blast
    show ?thesis
    proof (cases "re_search True (num_pattern_after identifier) name")
      case (Some m)
      from search_num_pattern_after(1) [OF Some] obtain pre d where
        l: "leftmost (digits_after identifier name) pre d" "group1 m = Some d" by blast
      then have c: "digits_after identifier name pre d" using leftmostD by blast
      then have "digit_string d" by (auto simp: digits_after_def)
      then have "padded m = Inr (zero_padded d)" using l(2) by (intro padded_digit_string)
      then show ?thesis using a b c n1 n2 Some l(1) by (auto simp: classify_groupable_def)
    next
      case None
      then have c: "\<not> (\<exists>pre d. digits_after identifier name pre d)"
        using search_num_pattern_after(2) by blast
      show ?thesis using a b c n1 n2 None by (simp add: classify_groupable_def)
    qed
  qed
qed





subsection \<open>Examples\<close>

lemma name_0001_PDBSE:
  "''0001 PDBSE'' = fst (splitext ''0001 PDBSE.tif'')"
  "find_identifier sorted_identifiers ''0001 PDBSE''
     = Some (''PDBSE'', RMatch '' PDBSE'' (Some ''PDBSE''))"
  "re_search True (num_pattern ''PDBSE'') ''0001 PDBSE''
     = Some (RMatch ''0001 PDBSE'' (Some ''0001''))"
  "strip ''0001 PDBSE'' = ''0001 PDBSE''"
  by code_simp+

lemma extract_0001_PDBSE:
  "extract_identifier_and_number ''0001 PDBSE.tif''
     = Inr (Some ''0001'', Some ''PDBSE'', Some ''0001 PDBSE'')"
  by (simp add: extract_identifier_and_number_def Let_def name_0001_PDBSE(1) [symmetric]
      name_0001_PDBSE(2,3,4) GROUPABLE_IDENTIFIERS_def classify_groupable_def)

lemma name_12_UD:
  "''12 UD'' = fst (splitext ''12 UD.tif'')"
  "find_identifier sorted_identifiers ''12 UD'' = Some (''UD'', RMatch '' UD'' (Some ''UD''))"
  "re_search True (num_pattern ''UD'') ''12 UD'' = None"
  "re_search True (num_pattern2 ''UD'') ''12 UD'' = Some (RMatch ''12 UD'' (Some ''12''))"
  "strip ''12 UD'' = ''12 UD''"
  "zfill 4 ''12'' = ''0012''"
  by code_simp+

lemma extract_12_UD:
  "extract_identifier_and_number ''12 UD.tif'' = Inr (Some ''0012'', Some ''UD'', Some ''12 UD'')"
  by (simp add: extract_identifier_and_number_def Let_def name_12_UD(1) [symmetric]
      name_12_UD(2,3,4,5,6) GROUPABLE_IDENTIFIERS_def classify_groupable_def padded_def)

lemma name_ABF_0100:
  "''ABF 0100'' = fst (splitext ''ABF 0100.tif'')"
  "find_identifier sorted_identifiers ''ABF 0100'' = Some (''ABF'', RMatch ''ABF '' (Some ''ABF''))"
  "re_search True (num_pattern ''ABF'') ''ABF 0100'' = None"
  "re_search True (num_pattern2 ''ABF'') ''ABF 0100'' = None"
  "re_search True (num_pattern_after ''ABF'') ''ABF 0100''
     = Some (RMatch ''ABF 0100'' (Some ''0100''))"
  "zfill 4 ''0100'' = ''0100''"
  by code_simp+

lemma extract_ABF_0100:
  "extract_identifier_and_number ''ABF 0100.tif'' = Inr (Some ''0100'', Some ''ABF'', Some ''ABF 0100'')"
  by (simp add: extract_identifier_and_number_def Let_def name_ABF_0100(1) [symmetric]
      name_ABF_0100(2,3,4,5,6) GROUPABLE_IDENTIFIERS_def classify_groupable_def padded_def)







subsection \<open>The group number of a name\<close>

text \<open>
  Claim C1. Let the first identifier of \<open>sorted_identifiers\<close> (the identifiers, longest
  first) that occurs in the name, the filename without its extension, be a groupable
  one. The group number is then looked for in this order: (a) four digits that stand
  before the identifier, with separators and possibly a further number in between
  (\<open>four_before\<close>), the leftmost such digits in the name; (b) a run of digits and
  separators before the identifier (\<open>digits_before\<close>), the leftmost one, padded with
  zeros to four digits; (c) a run of digits after the identifier and separators
  (\<open>digits_after\<close>), at the leftmost place where the identifier is followed so, padded
  likewise. A shape is used only when the name has none of the shapes before it in this
  order. When the name has none of the three, the identifier is returned with no group
  number (and with the identifier as the name writes it). In the three cases the
  classifier returns, and raises no exception. \<open>extract("0001 PDBSE.tif")\<close> is
  \<open>("0001", "PDBSE", "0001 PDBSE")\<close>.
\<close>

theorem extract_groupable:
  "(name = fst (splitext filename) \<and> first_identifier sorted_identifiers name identifier
      \<and> identifier \<in> set GROUPABLE_IDENTIFIERS
    \<longrightarrow> (\<exists>number full.
           extract_identifier_and_number filename = Inr (number, Some identifier, Some full)
           \<and> (if \<exists>pre g. four_before identifier name pre g
              then \<exists>pre g. leftmost (four_before identifier name) pre g \<and> number = Some g
              else if \<exists>pre d. digits_before identifier name pre d
              then \<exists>pre d. leftmost (digits_before identifier name) pre d
                        \<and> number = Some (zero_padded d)
              else if \<exists>pre d. digits_after identifier name pre d
              then \<exists>pre d. leftmost (digits_after identifier name) pre d
                        \<and> number = Some (zero_padded d)
              else number = None \<and> occurs identifier name full)))
   \<and> extract_identifier_and_number ''0001 PDBSE.tif''
       = Inr (Some ''0001'', Some ''PDBSE'', Some ''0001 PDBSE'')"
proof (intro conjI impI)
  assume a: "name = fst (splitext filename) \<and> first_identifier sorted_identifiers name identifier
      \<and> identifier \<in> set GROUPABLE_IDENTIFIERS"
  then obtain mt v where f: "find_identifier sorted_identifiers name = Some (identifier, mt)"
    and v: "occurs identifier name v" "group1 mt = Some v"
    using first_identifier_found by blast
  have e: "extract_identifier_and_number filename = classify_groupable identifier mt name"
    using a f by (simp add: extract_identifier_and_number_def Let_def)
  from classify_groupable_number [of "identifier" mt name] obtain number full where
    c: "classify_groupable identifier mt name = Inr (number, Some identifier, full)"
    and n: "if \<exists>pre g. four_before identifier name pre g
        then (\<exists>pre g. leftmost (four_before identifier name) pre g \<and> number = Some g)
             \<and> full \<noteq> None
        else if \<exists>pre d. digits_before identifier name pre d
        then (\<exists>pre d. leftmost (digits_before identifier name) pre d \<and> number = Some (zero_padded d))
             \<and> full \<noteq> None
        else if \<exists>pre d. digits_after identifier name pre d
        then (\<exists>pre d. leftmost (digits_after identifier name) pre d \<and> number = Some (zero_padded d))
             \<and> full \<noteq> None
        else number = None \<and> full = group1 mt" by blast
  have "full \<noteq> None" using n v(2) by (auto split: if_splits)
  then obtain t where t: "full = Some t" by blast
  have "if \<exists>pre g. four_before identifier name pre g
        then \<exists>pre g. leftmost (four_before identifier name) pre g \<and> number = Some g
        else if \<exists>pre d. digits_before identifier name pre d
        then \<exists>pre d. leftmost (digits_before identifier name) pre d \<and> number = Some (zero_padded d)
        else if \<exists>pre d. digits_after identifier name pre d
        then \<exists>pre d. leftmost (digits_after identifier name) pre d \<and> number = Some (zero_padded d)
        else number = None \<and> occurs identifier name t"
    using n v t by (auto split: if_splits)
  then show "\<exists>number full.
           extract_identifier_and_number filename = Inr (number, Some identifier, Some full)
           \<and> (if \<exists>pre g. four_before identifier name pre g
              then \<exists>pre g. leftmost (four_before identifier name) pre g \<and> number = Some g
              else if \<exists>pre d. digits_before identifier name pre d
              then \<exists>pre d. leftmost (digits_before identifier name) pre d
                        \<and> number = Some (zero_padded d)
              else if \<exists>pre d. digits_after identifier name pre d
              then \<exists>pre d. leftmost (digits_after identifier name) pre d
                        \<and> number = Some (zero_padded d)
              else number = None \<and> occurs identifier name full)"
    using e c t by (intro exI [of _ number] exI [of _ t]) simp
next
  show "extract_identifier_and_number ''0001 PDBSE.tif''
       = Inr (Some ''0001'', Some ''PDBSE'', Some ''0001 PDBSE'')"
    by (rule extract_0001_PDBSE)
qed

text \<open>
  C1 on \<open>0001 PDBSE.tif\<close> (four digits before the identifier), on \<open>12 UD.tif\<close> (a shorter
  run before it, padded) and on \<open>ABF 0100.tif\<close> (a run after it).
\<close>

theorem extract_groupable_witness:
  "''0001 PDBSE'' = fst (splitext ''0001 PDBSE.tif'')
   \<and> first_identifier sorted_identifiers ''0001 PDBSE'' ''PDBSE''
   \<and> ''PDBSE'' \<in> set GROUPABLE_IDENTIFIERS
   \<and> (\<exists>pre. leftmost (four_before ''PDBSE'' ''0001 PDBSE'') pre ''0001'')
   \<and> extract_identifier_and_number ''0001 PDBSE.tif''
       = Inr (Some ''0001'', Some ''PDBSE'', Some ''0001 PDBSE'')
   \<and> ''12 UD'' = fst (splitext ''12 UD.tif'')
   \<and> first_identifier sorted_identifiers ''12 UD'' ''UD''
   \<and> ''UD'' \<in> set GROUPABLE_IDENTIFIERS
   \<and> (\<exists>pre d. leftmost (digits_before ''UD'' ''12 UD'') pre d \<and> zero_padded d = ''0012'')
   \<and> extract_identifier_and_number ''12 UD.tif'' = Inr (Some ''0012'', Some ''UD'', Some ''12 UD'')
   \<and> ''ABF 0100'' = fst (splitext ''ABF 0100.tif'')
   \<and> first_identifier sorted_identifiers ''ABF 0100'' ''ABF''
   \<and> ''ABF'' \<in> set GROUPABLE_IDENTIFIERS
   \<and> (\<exists>pre d. leftmost (digits_after ''ABF'' ''ABF 0100'') pre d \<and> zero_padded d = ''0100'')
   \<and> extract_identifier_and_number ''ABF 0100.tif'' = Inr (Some ''0100'', Some ''ABF'', Some ''ABF 0100'')"
proof -
  note sp1 = name_0001_PDBSE(1)
  have f1: "first_identifier sorted_identifiers ''0001 PDBSE'' ''PDBSE''"
    using find_identifier_first [OF name_0001_PDBSE(2)] by blast
  have g1: "''PDBSE'' \<in> set GROUPABLE_IDENTIFIERS" by (simp add: GROUPABLE_IDENTIFIERS_def)
  have a1: "\<exists>pre g. four_before ''PDBSE'' ''0001 PDBSE'' pre g"
    using search_num_pattern(1) [OF name_0001_PDBSE(3)] leftmostD by blast
  note e1 = extract_0001_PDBSE
  note t1 = extract_groupable [of "''0001 PDBSE''" "''0001 PDBSE.tif''" "''PDBSE''",
      THEN conjunct1, THEN mp, OF conjI [OF sp1 conjI [OF f1 g1]]]
  have r1: "\<exists>pre. leftmost (four_before ''PDBSE'' ''0001 PDBSE'') pre ''0001''"
    using t1 unfolding if_P [OF a1] e1 by (auto; blast)

  note sp2 = name_12_UD(1)
  have f2: "first_identifier sorted_identifiers ''12 UD'' ''UD''"
    using find_identifier_first [OF name_12_UD(2)] by blast
  have g2: "''UD'' \<in> set GROUPABLE_IDENTIFIERS" by (simp add: GROUPABLE_IDENTIFIERS_def)
  have a2: "\<not> (\<exists>pre g. four_before ''UD'' ''12 UD'' pre g)"
    using search_num_pattern(2) [OF name_12_UD(3)] by blast
  have b2: "\<exists>pre d. digits_before ''UD'' ''12 UD'' pre d"
    using search_num_pattern2(1) [OF name_12_UD(4)] leftmostD by blast
  note e2 = extract_12_UD
  note t2 = extract_groupable [of "''12 UD''" "''12 UD.tif''" "''UD''",
      THEN conjunct1, THEN mp, OF conjI [OF sp2 conjI [OF f2 g2]]]
  have r2: "\<exists>pre d. leftmost (digits_before ''UD'' ''12 UD'') pre d \<and> zero_padded d = ''0012''"
    using t2 unfolding if_not_P [OF a2] if_P [OF b2] e2 by (auto; blast)

  note sp3 = name_ABF_0100(1)
  have f3: "first_identifier sorted_identifiers ''ABF 0100'' ''ABF''"
    using find_identifier_first [OF name_ABF_0100(2)] by blast
  have g3: "''ABF'' \<in> set GROUPABLE_IDENTIFIERS" by (simp add: GROUPABLE_IDENTIFIERS_def)
  have a3: "\<not> (\<exists>pre g. four_before ''ABF'' ''ABF 0100'' pre g)"
    using search_num_pattern(2) [OF name_ABF_0100(3)] by blast
  have b3: "\<not> (\<exists>pre d. digits_before ''ABF'' ''ABF 0100'' pre d)"
    using search_num_pattern2(2) [OF name_ABF_0100(4)] by blast
  have c3: "\<exists>pre d. digits_after ''ABF'' ''ABF 0100'' pre d"
    using search_num_pattern_after(1) [OF name_ABF_0100(5)] leftmostD by blast
  note e3 = extract_ABF_0100
  note t3 = extract_groupable [of "''ABF 0100''" "''ABF 0100.tif''" "''ABF''",
      THEN conjunct1, THEN mp, OF conjI [OF sp3 conjI [OF f3 g3]]]
  have r3: "\<exists>pre d. leftmost (digits_after ''ABF'' ''ABF 0100'') pre d \<and> zero_padded d = ''0100''"
    using t3 unfolding if_not_P [OF a3] if_not_P [OF b3] if_P [OF c3] e3 by (auto; blast)
  show ?thesis
    by (intro conjI sp1 f1 g1 r1 e1 sp2 f2 g2 r2 e2 sp3 f3 g3 r3 e3)
qed



end
